theory Spec2Isabelle
  imports Main "HOL-Library.Word"
begin

section \<open>Strings\<close>

text \<open>
  A URL and a page text are HOL strings.  A character is read as the Unicode code point
  of the same number, so the texts of the model are the Python strings over the first
  256 code points.  The character classes and the lower-case mapping below are
  Python's on these code points.  Upper-casing and title-casing can leave this range
  (code point 0xFF gives 0x178, the micro sign 0xB5 gives 0x39C) or give two
  characters (the sharp s 0xDF), so their results are lists of code points.
\<close>

type_synonym ustring = "nat list"

definition ustr :: "string \<Rightarrow> ustring" where
  \<comment> \<open>a text of the model as a list of code points\<close>
  "ustr s = map of_char s"

definition uppercase :: string where
  \<comment> \<open>the upper-case letters with a lower-case letter among the 256 code points:
      A to Z, 0xC0 to 0xD6 and 0xD8 to 0xDE\<close>
  "uppercase = ''ABCDEFGHIJKLMNOPQRSTUVWXYZ''
     @ [CHR 0xC0, CHR 0xC1, CHR 0xC2, CHR 0xC3, CHR 0xC4, CHR 0xC5, CHR 0xC6,
       CHR 0xC7, CHR 0xC8, CHR 0xC9, CHR 0xCA, CHR 0xCB, CHR 0xCC, CHR 0xCD,
       CHR 0xCE, CHR 0xCF, CHR 0xD0, CHR 0xD1, CHR 0xD2, CHR 0xD3, CHR 0xD4,
       CHR 0xD5, CHR 0xD6, CHR 0xD8, CHR 0xD9, CHR 0xDA, CHR 0xDB, CHR 0xDC,
       CHR 0xDD, CHR 0xDE]"

definition lowercase :: string where
  \<comment> \<open>their lower-case letters, in the same order\<close>
  "lowercase = ''abcdefghijklmnopqrstuvwxyz''
     @ [CHR 0xE0, CHR 0xE1, CHR 0xE2, CHR 0xE3, CHR 0xE4, CHR 0xE5, CHR 0xE6,
       CHR 0xE7, CHR 0xE8, CHR 0xE9, CHR 0xEA, CHR 0xEB, CHR 0xEC, CHR 0xED,
       CHR 0xEE, CHR 0xEF, CHR 0xF0, CHR 0xF1, CHR 0xF2, CHR 0xF3, CHR 0xF4,
       CHR 0xF5, CHR 0xF6, CHR 0xF8, CHR 0xF9, CHR 0xFA, CHR 0xFB, CHR 0xFC,
       CHR 0xFD, CHR 0xFE]"

definition iscased :: "char \<Rightarrow> bool" where
  \<comment> \<open>the cased characters: the letters of the two lists, the ordinal indicators 0xAA
      and 0xBA, the micro sign 0xB5, the sharp s 0xDF and 0xFF\<close>
  "iscased c = (c \<in> set (uppercase @ lowercase
                            @ [CHR 0xAA, CHR 0xB5, CHR 0xBA, CHR 0xDF, CHR 0xFF]))"

definition isdigit :: "char \<Rightarrow> bool" where
  \<comment> \<open>\<open>\d\<close>: no code point from 0x80 to 0xFF is a decimal digit\<close>
  "isdigit c = (c \<in> set ''0123456789'')"

definition isspace :: "char \<Rightarrow> bool" where
  \<comment> \<open>\<open>\s\<close> on a \<open>str\<close>: tab, newline, vertical tab, form feed, carriage return,
      the four separators 0x1C..0x1F, the space, the next-line character 0x85 and
      the no-break space 0xA0\<close>
  "isspace c = (c \<in> set [CHR 0x09, CHR 0x0A, CHR 0x0B, CHR 0x0C, CHR 0x0D,
                           CHR 0x1C, CHR 0x1D, CHR 0x1E, CHR 0x1F, CHR 0x20,
                           CHR 0x85, CHR 0xA0])"

definition isword :: "char \<Rightarrow> bool" where
  \<comment> \<open>\<open>\w\<close> on a \<open>str\<close>: a letter, a digit, the underscore, or one of the
      numeric characters 0xB2, 0xB3, 0xB9 (superscripts) and 0xBC..0xBE (fractions)\<close>
  "isword c = (iscased c \<or> isdigit c \<or> c = CHR ''_''
               \<or> c \<in> set [CHR 0xB2, CHR 0xB3, CHR 0xB9, CHR 0xBC, CHR 0xBD, CHR 0xBE])"

definition lower :: "char \<Rightarrow> char" where
  \<comment> \<open>an upper-case letter becomes the lower-case letter at the same place of the lists\<close>
  "lower c = (case map_of (zip uppercase lowercase) c of Some d \<Rightarrow> d | None \<Rightarrow> c)"

definition toupper :: "char \<Rightarrow> ustring" where
  \<comment> \<open>the upper case of one character\<close>
  "toupper c =
     (if c = CHR 0xB5 then [0x39C]
      else if c = CHR 0xDF then [0x53, 0x53]
      else if c = CHR 0xFF then [0x178]
      else [of_char (case map_of (zip lowercase uppercase) c of Some d \<Rightarrow> d | None \<Rightarrow> c)])"

definition totitle :: "char \<Rightarrow> ustring" where
  \<comment> \<open>the title case of one character: its upper case, but \<open>Ss\<close> for the sharp s\<close>
  "totitle c = (if c = CHR 0xDF then [0x53, 0x73] else toupper c)"

definition str_upper :: "string \<Rightarrow> ustring" where
  \<comment> \<open>\<open>str.upper()\<close>\<close>
  "str_upper s = concat (map toupper s)"

fun title_from :: "bool \<Rightarrow> string \<Rightarrow> ustring" where
  "title_from previous_is_cased [] = []"
| "title_from previous_is_cased (c # cs) =
     (if previous_is_cased then [of_char (lower c)] else totitle c)
     @ title_from (iscased c) cs"

definition str_title :: "string \<Rightarrow> ustring" where
  \<comment> \<open>\<open>str.title()\<close>: a character is lower-cased when the character before it is
      cased, and title-cased when it is not\<close>
  "str_title s = title_from False s"

function str_replace :: "string \<Rightarrow> string \<Rightarrow> string \<Rightarrow> string" where
  \<comment> \<open>\<open>s.replace(old, new)\<close>: the occurrences of \<open>old\<close> are taken from left to right and
      do not overlap; an empty \<open>old\<close> matches before every character and at the end\<close>
  "str_replace old new s =
     (if old = [] then new @ concat (map (\<lambda>c. c # new) s)
      else if s = [] then []
      else if take (length old) s = old then new @ str_replace old new (drop (length old) s)
      else hd s # str_replace old new (tl s))"
  by pat_completeness auto
termination
  by (relation "measure (\<lambda>(old, new, s). length s)") auto

declare str_replace.simps [simp del]

section \<open>Regular expressions\<close>

text \<open>
  The five patterns of the scraper are sequences of single-character atoms, each with
  at most one quantifier, and at most one capturing group, which is under no
  quantifier and so is set by every match.  All five are compiled with
  \<open>re.IGNORECASE\<close>, so a literal is compared case-insensitively.  The matcher is the
  backtracking one of \<open>re\<close>: a greedy quantifier first tries to take a character, a
  lazy one first tries to go on, and the first path that reaches the end of the
  pattern is the match.
\<close>

datatype atom = Lit char | Digit | Space | Word | Any

datatype quant = One | Opt | Plus | Star | Lazy

datatype item = Atom atom quant | GroupOpen | GroupClose

fun atom_ok :: "atom \<Rightarrow> char \<Rightarrow> bool" where
  "atom_ok (Lit p) c = (lower c = lower p)"
| "atom_ok Digit c = isdigit c"
| "atom_ok Space c = isspace c"
| "atom_ok Word c = isword c"
| "atom_ok Any c = (c \<noteq> CHR 0x0A)"

text \<open>
  \<open>rx_match rx s (go, gc)\<close> matches \<open>rx\<close> at the start of \<open>s\<close>.  The marks \<open>go\<close> and
  \<open>gc\<close> are the text that was still to be read when group 1 was opened and closed.
  The result is the text after the match, with the marks of the successful path.
\<close>

function rx_match :: "item list \<Rightarrow> string \<Rightarrow> string \<times> string \<Rightarrow> (string \<times> string \<times> string) option" where
  "rx_match [] s (go, gc) = Some (s, go, gc)"
| "rx_match (GroupOpen # r) s (go, gc) = rx_match r s (s, gc)"
| "rx_match (GroupClose # r) s (go, gc) = rx_match r s (go, s)"
| "rx_match (Atom a One # r) s g =
     (case s of [] \<Rightarrow> None
      | c # cs \<Rightarrow> if atom_ok a c then rx_match r cs g else None)"
| "rx_match (Atom a Opt # r) s g =
     (case s of [] \<Rightarrow> rx_match r s g
      | c # cs \<Rightarrow>
          if atom_ok a c
          then (case rx_match r cs g of Some m \<Rightarrow> Some m | None \<Rightarrow> rx_match r s g)
          else rx_match r s g)"
| "rx_match (Atom a Plus # r) s g =
     (case s of [] \<Rightarrow> None
      | c # cs \<Rightarrow> if atom_ok a c then rx_match (Atom a Star # r) cs g else None)"
| "rx_match (Atom a Star # r) s g =
     (case s of [] \<Rightarrow> rx_match r s g
      | c # cs \<Rightarrow>
          if atom_ok a c
          then (case rx_match (Atom a Star # r) cs g of Some m \<Rightarrow> Some m
                | None \<Rightarrow> rx_match r s g)
          else rx_match r s g)"
| "rx_match (Atom a Lazy # r) s g =
     (case rx_match r s g of Some m \<Rightarrow> Some m
      | None \<Rightarrow>
          (case s of [] \<Rightarrow> None
           | c # cs \<Rightarrow> if atom_ok a c then rx_match (Atom a Lazy # r) cs g else None))"
  by pat_completeness auto
termination
  by (relation "inv_image (less_than <*lex*> less_than) (\<lambda>(rx, s, g). (length s, length rx))") auto

record rmatch =
  m_group0 :: string
  m_group1 :: string
  m_rest :: string

definition mk_match :: "string \<Rightarrow> string \<times> string \<times> string \<Rightarrow> rmatch" where
  "mk_match s m = (case m of (rest, go, gc) \<Rightarrow>
     \<lparr> m_group0 = take (length s - length rest) s,
       m_group1 = take (length go - length gc) go,
       m_rest = rest \<rparr>)"

fun re_search :: "item list \<Rightarrow> string \<Rightarrow> rmatch option" where
  \<comment> \<open>\<open>re.search\<close>: the match at the leftmost position that has one\<close>
  "re_search rx [] =
     (case rx_match rx [] ([], []) of Some m \<Rightarrow> Some (mk_match [] m) | None \<Rightarrow> None)"
| "re_search rx (c # cs) =
     (case rx_match rx (c # cs) (c # cs, c # cs) of
        Some m \<Rightarrow> Some (mk_match (c # cs) m)
      | None \<Rightarrow> re_search rx cs)"

text \<open>
  What is left of the text after a match is an end of the text that was searched; this
  is why the scan for the successive matches comes to an end.
\<close>

lemma rx_match_suffix:
  "rx_match rx s g = Some (rest, go, gc) \<Longrightarrow> \<exists>w. s = w @ rest"
proof (induction rx s g arbitrary: rest go gc rule: rx_match.induct)
  case (1 s go gc)
  then show ?case by simp
next
  case (2 r s go gc)
  then show ?case by simp
next
  case (3 r s go gc)
  then show ?case by simp
next
  case (4 a r s g)
  then show ?case
    by (cases s) (auto split: if_splits, metis append_Cons)
next
  case (5 a r s g)
  then show ?case
    by (cases s) (auto split: if_splits option.splits, (metis append_Cons)+)
next
  case (6 a r s g)
  then show ?case
    by (cases s) (auto split: if_splits, metis append_Cons)
next
  case (7 a r s g)
  then show ?case
    by (cases s) (auto split: if_splits option.splits, (metis append_Cons)+)
next
  case (8 a r s g)
  then show ?case
    by (cases s) (auto split: if_splits option.splits, (metis append_Cons)+)
qed

lemma re_search_split:
  "re_search rx s = Some m \<Longrightarrow> \<exists>pre. s = pre @ m_group0 m @ m_rest m"
proof (induction s)
  case Nil
  then show ?case
    by (auto simp: mk_match_def split: option.splits dest: rx_match_suffix)
next
  case (Cons c cs)
  show ?case
  proof (cases "rx_match rx (c # cs) (c # cs, c # cs)")
    case None
    with Cons obtain pre where "cs = pre @ m_group0 m @ m_rest m" by auto
    then have "c # cs = (c # pre) @ m_group0 m @ m_rest m" by simp
    then show ?thesis by blast
  next
    case (Some t)
    obtain rest go gc where t: "t = (rest, go, gc)" by (cases t)
    with Some obtain w where w: "c # cs = w @ rest" by (blast dest: rx_match_suffix)
    from Cons.prems Some t have m: "m = mk_match (c # cs) (rest, go, gc)" by simp
    have "take (length (c # cs) - length rest) (c # cs) = w" using w by simp
    with m w have "c # cs = [] @ m_group0 m @ m_rest m" by (simp add: mk_match_def)
    then show ?thesis by blast
  qed
qed

lemma re_search_rest_length:
  assumes "re_search rx s = Some m"
  shows "length (m_rest m) \<le> length s"
    and "m_group0 m \<noteq> [] \<Longrightarrow> length (m_rest m) < length s"
proof -
  from assms obtain pre where s: "s = pre @ m_group0 m @ m_rest m"
    by (blast dest: re_search_split)
  have "length s = length pre + length (m_group0 m) + length (m_rest m)"
    by (subst s) simp
  then show "length (m_rest m) \<le> length s"
    and "m_group0 m \<noteq> [] \<Longrightarrow> length (m_rest m) < length s"
    by (cases "m_group0 m"; simp)+
qed

text \<open>
  After an empty match the scan goes on one character further.  The two patterns that
  the scraper scans with accept no empty text (\<open>std_rx_match_nonempty\<close> and
  \<open>req_rx_match_nonempty\<close> below), so the scraper never takes that branch.
\<close>

function re_finditer :: "item list \<Rightarrow> string \<Rightarrow> rmatch list" where
  \<comment> \<open>\<open>re.finditer\<close>: the successive matches from left to right, each search starting
      where the match before it ended (one character further after an empty match)\<close>
  "re_finditer rx s =
     (case re_search rx s of
        None \<Rightarrow> []
      | Some m \<Rightarrow>
          m # (if m_group0 m = []
               then (case m_rest m of [] \<Rightarrow> [] | c # cs \<Rightarrow> re_finditer rx cs)
               else re_finditer rx (m_rest m)))"
  by pat_completeness auto
termination
proof (relation "measure (\<lambda>(rx, s). length s)")
  show "wf (measure (\<lambda>(rx, s). length s))" by simp
next
  fix rx :: "item list" and s m c cs
  assume "re_search rx s = Some m" and "m_rest m = c # cs"
  then show "((rx, cs), (rx, s)) \<in> measure (\<lambda>(rx, s). length s)"
    using re_search_rest_length(1) [of rx s m] by simp
next
  fix rx :: "item list" and s m
  assume "re_search rx s = Some m" and "m_group0 m \<noteq> []"
  then show "((rx, m_rest m), (rx, s)) \<in> measure (\<lambda>(rx, s). length s)"
    using re_search_rest_length(2) [of rx s m] by simp
qed

declare re_finditer.simps [simp del]

subsection \<open>The patterns of the scraper\<close>

definition lits :: "string \<Rightarrow> item list" where
  \<comment> \<open>a run of literal characters\<close>
  "lits p = map (\<lambda>c. Atom (Lit c) One) p"

definition id_rx :: "item list" where
  \<comment> \<open>\<open>(OCHMO-M?TB-\d+)\<close>\<close>
  "id_rx = [GroupOpen] @ lits ''OCHMO-'' @ [Atom (Lit CHR ''M'') Opt] @ lits ''TB-''
           @ [Atom Digit Plus, GroupClose]"

definition title_rx :: "item list" where
  \<comment> \<open>\<open>ochmo-m?tb-\d+-(.*?)\.pdf\<close>\<close>
  "title_rx = lits ''ochmo-'' @ [Atom (Lit CHR ''m'') Opt] @ lits ''tb-''
              @ [Atom Digit Plus] @ lits ''-'' @ [GroupOpen, Atom Any Lazy, GroupClose]
              @ lits ''.pdf''"

definition std_rx :: "item list" where
  \<comment> \<open>\<open>(NASA\s?-\s?STD\s?-\s?\d+\sVolume\s\d,\s?Rev\s\w)\<close>\<close>
  "std_rx = [GroupOpen] @ lits ''NASA'' @ [Atom Space Opt] @ lits ''-'' @ [Atom Space Opt]
            @ lits ''STD'' @ [Atom Space Opt] @ lits ''-''
            @ [Atom Space Opt, Atom Digit Plus, Atom Space One] @ lits ''Volume''
            @ [Atom Space One, Atom Digit One] @ lits '','' @ [Atom Space Opt]
            @ lits ''Rev'' @ [Atom Space One, Atom Word One, GroupClose]"

definition req_rx :: "item list" where
  \<comment> \<open>\<open>\[(V\d\s*\d+)\]\<close>\<close>
  "req_rx = lits ''['' @ [GroupOpen] @ lits ''V''
            @ [Atom Digit One, Atom Space Star, Atom Digit Plus, GroupClose] @ lits '']''"

definition link_rx :: "item list" where
  \<comment> \<open>\<open>ochmo-m?tb-\d+.*\.pdf\?\<close>\<close>
  "link_rx = lits ''ochmo-'' @ [Atom (Lit CHR ''m'') Opt] @ lits ''tb-''
             @ [Atom Digit Plus, Atom Any Star] @ lits ''.pdf?''"

section \<open>The collaborators\<close>

text \<open>
  The network, the HTML parser, URL resolution and the PDF reader are outside the
  program.  They are parameters of the model, with the failures the program catches
  as error values.
\<close>

type_synonym bytes = "8 word list"

datatype error =
    RetrievalError        \<comment> \<open>a \<open>requests.exceptions.RequestException\<close>\<close>
  | DocumentParseError    \<comment> \<open>an exception of \<open>PdfReader\<close> or of \<open>extract_text\<close>\<close>

record env =
  requests_get :: "string \<Rightarrow> error + bytes"
    \<comment> \<open>\<open>requests.get(url)\<close>, \<open>raise_for_status()\<close>, then \<open>.content\<close>\<close>
  find_all_a_href :: "bytes \<Rightarrow> string list"
    \<comment> \<open>the \<open>href\<close> of every \<open>a\<close> tag that has one, in document order\<close>
  urljoin :: "string \<Rightarrow> string \<Rightarrow> string"
  pdf_reader :: "bytes \<Rightarrow> error + (error + string) list"
    \<comment> \<open>\<open>PdfReader(io.BytesIO(b)).pages\<close>, each page with what its
        \<open>extract_text()\<close> gives\<close>

section \<open>PdfReport\<close>

record PdfReport =
  url :: string
  ochmo_id :: "ustring option"
  title :: "ustring option"
  technical_requirements_docs :: "string list"
  technical_requirements :: "string list"
  pdf_bytes :: "bytes option"

definition PdfReport_init :: "string \<Rightarrow> PdfReport" where
  "PdfReport_init u =
     \<lparr> url = u, ochmo_id = None, title = None, technical_requirements_docs = [],
       technical_requirements = [], pdf_bytes = None \<rparr>"

definition truthy :: "'a list option \<Rightarrow> bool" where
  \<comment> \<open>the truth value of an optional string or byte string: neither \<open>None\<close> nor empty\<close>
  "truthy x = (case x of None \<Rightarrow> False | Some v \<Rightarrow> v \<noteq> [])"

definition fetch_pdf_content :: "env \<Rightarrow> PdfReport \<Rightarrow> PdfReport" where
  "fetch_pdf_content e self =
     (if pdf_bytes self = None
      then (case requests_get e (url self) of
              Inr content \<Rightarrow> self\<lparr>pdf_bytes := Some content\<rparr>
            | Inl err \<Rightarrow> self\<lparr>pdf_bytes := None\<rparr>)
      else self)"

definition parse_ochmo_id :: "PdfReport \<Rightarrow> PdfReport" where
  "parse_ochmo_id self =
     (case re_search id_rx (url self) of
        Some id_match \<Rightarrow> self\<lparr>ochmo_id := Some (str_upper (m_group1 id_match))\<rparr>
      | None \<Rightarrow> self\<lparr>ochmo_id := None\<rparr>)"

definition parse_title :: "PdfReport \<Rightarrow> PdfReport" where
  "parse_title self =
     (if \<not> truthy (ochmo_id self) then self
      else (case re_search title_rx (url self) of
              Some title_match \<Rightarrow>
                self\<lparr>title := Some (str_title (str_replace ''-'' '' '' (m_group1 title_match)))\<rparr>
            | None \<Rightarrow> self\<lparr>title := None\<rparr>))"

fun append_docs :: "string list \<Rightarrow> rmatch list \<Rightarrow> string list" where
  \<comment> \<open>the loop over \<open>trd_matches\<close>\<close>
  "append_docs docs [] = docs"
| "append_docs docs (m # ms) = append_docs (docs @ [str_replace '' -'' ''-'' (m_group1 m)]) ms"

fun append_reqs :: "string list \<Rightarrow> rmatch list \<Rightarrow> string list" where
  \<comment> \<open>the loop over \<open>tr_matches\<close>\<close>
  "append_reqs reqs [] = reqs"
| "append_reqs reqs (m # ms) = append_reqs (reqs @ [m_group1 m]) ms"

definition parse_technical_requirements :: "PdfReport \<Rightarrow> string \<Rightarrow> PdfReport" where
  "parse_technical_requirements self page_text =
     (let trd_matches = re_finditer std_rx page_text;
          self1 = self\<lparr>technical_requirements_docs :=
                    append_docs (technical_requirements_docs self) trd_matches\<rparr>;
          tr_matches = re_finditer req_rx page_text
      in self1\<lparr>technical_requirements :=
                 append_reqs (technical_requirements self1) tr_matches\<rparr>)"

definition parse :: "env \<Rightarrow> PdfReport \<Rightarrow> PdfReport" where
  "parse e self =
     (let self1 = parse_ochmo_id self;
          self2 = parse_title self1;
          self3 = fetch_pdf_content e self2
      in if \<not> truthy (pdf_bytes self3) then self3
         else (case pdf_bytes self3 of
                 None \<Rightarrow> self3
               | Some b \<Rightarrow>
                   (case pdf_reader e b of
                      Inl err \<Rightarrow> self3
                    | Inr pages \<Rightarrow>
                        (case pages of
                           [] \<Rightarrow> self3
                         | page # _ \<Rightarrow>
                             (case page of
                                Inl err \<Rightarrow> self3
                              | Inr page_text \<Rightarrow>
                                  parse_technical_requirements self3 page_text)))))"

section \<open>NasaScraper\<close>

record NasaScraper =
  base_url :: string

fun links_loop :: "env \<Rightarrow> string \<Rightarrow> string list \<Rightarrow> string list \<Rightarrow> string list" where
  \<comment> \<open>the loop over the \<open>a\<close> tags\<close>
  "links_loop e base [] links = links"
| "links_loop e base (href # hrefs) links =
     links_loop e base hrefs
       (if re_search link_rx href \<noteq> None then links @ [urljoin e base href] else links)"

definition list_pdf_links :: "env \<Rightarrow> NasaScraper \<Rightarrow> string list" where
  "list_pdf_links e self =
     (case requests_get e (base_url self) of
        Inl err \<Rightarrow> []
      | Inr content \<Rightarrow> links_loop e (base_url self) (find_all_a_href e content) [])"

definition slice_to :: "'a list \<Rightarrow> int option \<Rightarrow> 'a list" where
  \<comment> \<open>\<open>xs[:limit]\<close>: all of \<open>xs\<close> for \<open>None\<close>; a negative limit counts from the end\<close>
  "slice_to xs limit =
     (case limit of
        None \<Rightarrow> xs
      | Some k \<Rightarrow>
          if 0 \<le> k then take (nat k) xs
          else take (nat (int (length xs) + k)) xs)"

fun scrape_loop :: "env \<Rightarrow> string list \<Rightarrow> PdfReport list \<Rightarrow> PdfReport list" where
  "scrape_loop e [] reports = reports"
| "scrape_loop e (u # pdf_urls) reports =
     (let report = parse e (PdfReport_init u)
      in scrape_loop e pdf_urls
           (if truthy (ochmo_id report) then reports @ [report] else reports))"

definition scrape_reports :: "env \<Rightarrow> NasaScraper \<Rightarrow> int option \<Rightarrow> PdfReport list" where
  "scrape_reports e self limit =
     (let pdf_urls = slice_to (list_pdf_links e self) limit
      in scrape_loop e pdf_urls [])"

section \<open>The words of the specification\<close>

text \<open>
  The specification describes the texts that the patterns stand for, and the records
  that the program can hold.  The definitions of this section say the same without the
  matcher; the theorems below compare the program with them.
\<close>

subsection \<open>What a pattern accepts\<close>

text \<open>
  \<open>accepts rx w\<close> holds when the pattern, read as a description of texts, describes
  the whole of \<open>w\<close>: no order of preference between the alternatives, no group marks.
\<close>

fun accepts :: "item list \<Rightarrow> string \<Rightarrow> bool" where
  "accepts [] w = (w = [])"
| "accepts (GroupOpen # r) w = accepts r w"
| "accepts (GroupClose # r) w = accepts r w"
| "accepts (Atom a One # r) w =
     (case w of [] \<Rightarrow> False | c # cs \<Rightarrow> atom_ok a c \<and> accepts r cs)"
| "accepts (Atom a Opt # r) w =
     (accepts r w \<or> (case w of [] \<Rightarrow> False | c # cs \<Rightarrow> atom_ok a c \<and> accepts r cs))"
| "accepts (Atom a Plus # r) w =
     (case w of [] \<Rightarrow> False | c # cs \<Rightarrow> atom_ok a c \<and> accepts (Atom a Star # r) cs)"
| "accepts (Atom a Star # r) w =
     (accepts r w \<or>
      (case w of [] \<Rightarrow> False | c # cs \<Rightarrow> atom_ok a c \<and> accepts (Atom a Star # r) cs))"
| "accepts (Atom a Lazy # r) w =
     (accepts r w \<or>
      (case w of [] \<Rightarrow> False | c # cs \<Rightarrow> atom_ok a c \<and> accepts (Atom a Lazy # r) cs))"

text \<open>A text contains a part that the pattern accepts.\<close>

definition contains :: "item list \<Rightarrow> string \<Rightarrow> bool" where
  "contains rx s = (\<exists>pre w suf. s = pre @ w @ suf \<and> accepts rx w)"

subsection \<open>Identifier tokens\<close>

text \<open>
  An identifier token, in the words of the specification: \<open>OCHMO-\<close>, then an optional
  \<open>M\<close>, then \<open>TB-\<close>, then digits, in either case.
\<close>

definition id_token :: "string \<Rightarrow> bool" where
  "id_token w =
     (\<exists>p m t ds. w = p @ m @ t @ ds \<and> map lower p = ''ochmo-''
        \<and> (m = [] \<or> map lower m = ''m'') \<and> map lower t = ''tb-''
        \<and> ds \<noteq> [] \<and> list_all isdigit ds)"

definition has_id_token :: "string \<Rightarrow> bool" where
  "has_id_token s = (\<exists>pre w suf. s = pre @ w @ suf \<and> id_token w)"

subsection \<open>Citations of standards\<close>

text \<open>
  A citation, as the standards pattern reads it: \<open>NASA\<close>, a hyphen, \<open>STD\<close>, a hyphen,
  digits, a white space, \<open>Volume\<close>, a white space, one digit, a comma, \<open>Rev\<close>, a white
  space and one word character, in either case; at most one white space may stand on
  each side of each hyphen and after the comma.  A white space is a character of \<open>\s\<close>
  and a word character a character of \<open>\w\<close>, so the no-break space and the accented
  letters count.
\<close>

definition space01 :: "string \<Rightarrow> bool" where
  "space01 s = (length s \<le> 1 \<and> list_all isspace s)"

definition std_citation :: "string \<Rightarrow> bool" where
  "std_citation w =
     (\<exists>n s1 s2 t s3 s4 ds a v b d s5 rv c x.
        w = n @ s1 @ ''-'' @ s2 @ t @ s3 @ ''-'' @ s4 @ ds @ [a] @ v @ [b] @ [d] @ '','' @ s5
              @ rv @ [c] @ [x]
        \<and> map lower n = ''nasa'' \<and> space01 s1 \<and> space01 s2 \<and> map lower t = ''std''
        \<and> space01 s3 \<and> space01 s4 \<and> ds \<noteq> [] \<and> list_all isdigit ds \<and> isspace a
        \<and> map lower v = ''volume'' \<and> isspace b \<and> isdigit d \<and> space01 s5
        \<and> map lower rv = ''rev'' \<and> isspace c \<and> isword x)"

text \<open>
  Two citations outside ASCII: one with a no-break space after \<open>Volume\<close>, one whose
  revision is the letter e with an acute accent.
\<close>

definition citation_nbsp :: string where
  "citation_nbsp = ''NASA-STD-3001 Volume'' @ [CHR 0xA0] @ ''2, Rev A''"

definition citation_e_acute :: string where
  "citation_e_acute = ''NASA-STD-3001 Volume 2, Rev '' @ [CHR 0xE9]"

subsection \<open>The states of a record\<close>

text \<open>
  The records that the program can hold: a new record, and what any operation of the
  class makes of a record that it can hold.
\<close>

inductive reachable :: "env \<Rightarrow> PdfReport \<Rightarrow> bool" for e :: env where
  init: "reachable e (PdfReport_init u)"
| step_parse_ochmo_id: "reachable e r \<Longrightarrow> reachable e (parse_ochmo_id r)"
| step_parse_title: "reachable e r \<Longrightarrow> reachable e (parse_title r)"
| step_fetch_pdf_content: "reachable e r \<Longrightarrow> reachable e (fetch_pdf_content e r)"
| step_parse_technical_requirements:
    "reachable e r \<Longrightarrow> reachable e (parse_technical_requirements r page_text)"
| step_parse: "reachable e r \<Longrightarrow> reachable e (parse e r)"

section \<open>Two listing pages\<close>

text \<open>
  The listing page \<open>https://h/briefs/\<close> links two briefs and one other page.  The first
  brief can be fetched and its first page cites one standard and one requirement; the
  fetch of the second brief fails.  The three links are relative, with no dot segment
  and no empty query, and \<open>urllib.parse.urljoin\<close> resolves each of them to the URL of
  the listing page followed by the link; URL resolution is applied to no other link.
\<close>

definition demo_env :: env where
  "demo_env =
     \<lparr> requests_get = (\<lambda>u.
         if u = ''https://h/briefs/'' then Inr [1]
         else if u = ''https://h/briefs/ochmo-tb-7-noise.pdf?v=1'' then Inr [2]
         else Inl RetrievalError),
       find_all_a_href = (\<lambda>b.
         [''ochmo-tb-7-noise.pdf?v=1'', ''about.html'', ''ochmo-mtb-12-co2.pdf?v=2'']),
       urljoin = (\<lambda>base href. base @ href),
       pdf_reader = (\<lambda>b. Inr [Inr ''per NASA-STD-3001 Volume 2, Rev A and [V2 104]'']) \<rparr>"

definition demo_scraper :: NasaScraper where
  "demo_scraper = \<lparr> base_url = ''https://h/briefs/'' \<rparr>"

text \<open>
  \<open>urllib.parse.urljoin\<close> removes the dot segments of a path and an empty query:
  \<open>urljoin("https://h/d/", "ochmo-tb-1/../a.pdf?")\<close> is \<open>"https://h/d/a.pdf"\<close>.  The listing
  page below has this one link.
\<close>

definition dots_env :: env where
  "dots_env =
     \<lparr> requests_get = (\<lambda>u. if u = ''https://h/d/'' then Inr [1] else Inl RetrievalError),
       find_all_a_href = (\<lambda>b. [''ochmo-tb-1/../a.pdf?'']),
       urljoin = (\<lambda>base href.
         if base = ''https://h/d/'' \<and> href = ''ochmo-tb-1/../a.pdf?'' then ''https://h/d/a.pdf''
         else base @ href),
       pdf_reader = (\<lambda>b. Inr []) \<rparr>"

definition dots_scraper :: NasaScraper where
  "dots_scraper = \<lparr> base_url = ''https://h/d/'' \<rparr>"

section \<open>Parts of the patterns\<close>

text \<open>
  The identifier pattern and the standards pattern without their group marks, and the
  part of the link pattern that reads an identifier.
\<close>

definition id_body :: "item list" where
  "id_body = lits ''OCHMO-'' @ [Atom (Lit CHR ''M'') Opt] @ lits ''TB-'' @ [Atom Digit Plus]"

definition link_head :: "item list" where
  "link_head = lits ''ochmo-'' @ (Atom (Lit CHR ''m'') Opt # lits ''tb-'' @ [Atom Digit Plus])"

definition std_body :: "item list" where
  "std_body = lits ''NASA'' @ [Atom Space Opt] @ lits ''-'' @ [Atom Space Opt]
            @ lits ''STD'' @ [Atom Space Opt] @ lits ''-''
            @ [Atom Space Opt, Atom Digit Plus, Atom Space One] @ lits ''Volume''
            @ [Atom Space One, Atom Digit One] @ lits '','' @ [Atom Space Opt]
            @ lits ''Rev'' @ [Atom Space One, Atom Word One]"

section \<open>The matcher finds what the pattern accepts\<close>

lemma rx_induct [case_names Nil GroupOpen GroupClose One Opt Plus Star Lazy]:
  assumes nil: "\<And>s g. P [] s g"
    and gopen: "\<And>r s g. (\<And>g'. P r s g') \<Longrightarrow> P (GroupOpen # r) s g"
    and gclose: "\<And>r s g. (\<And>g'. P r s g') \<Longrightarrow> P (GroupClose # r) s g"
    and one: "\<And>a r s g. (\<And>c cs. s = c # cs \<Longrightarrow> P r cs g) \<Longrightarrow> P (Atom a One # r) s g"
    and opt: "\<And>a r s g. P r s g \<Longrightarrow> (\<And>c cs. s = c # cs \<Longrightarrow> P r cs g)
                \<Longrightarrow> P (Atom a Opt # r) s g"
    and plus: "\<And>a r s g. (\<And>c cs. s = c # cs \<Longrightarrow> P (Atom a Star # r) cs g)
                \<Longrightarrow> P (Atom a Plus # r) s g"
    and star: "\<And>a r s g. P r s g \<Longrightarrow> (\<And>c cs. s = c # cs \<Longrightarrow> P (Atom a Star # r) cs g)
                \<Longrightarrow> P (Atom a Star # r) s g"
    and lazy: "\<And>a r s g. P r s g \<Longrightarrow> (\<And>c cs. s = c # cs \<Longrightarrow> P (Atom a Lazy # r) cs g)
                \<Longrightarrow> P (Atom a Lazy # r) s g"
  shows "P rx s g"
proof -
  have "\<forall>rx g. P rx s g"
  proof (induction s rule: length_induct)
    case (1 s)
    have shorter: "P rx cs g" if "s = c # cs" for rx c cs g
      using 1 that by simp
    have "P rx s g" for rx g
    proof (induction rx arbitrary: g)
      case Nil
      show ?case by (rule nil)
    next
      case (Cons it r)
      show ?case
      proof (cases it)
        case GroupOpen
        then show ?thesis using Cons gopen by blast
      next
        case GroupClose
        then show ?thesis using Cons gclose by blast
      next
        case (Atom a q)
        show ?thesis
        proof (cases q)
          case One
          show ?thesis unfolding Atom One by (rule one) (rule shorter)
        next
          case Opt
          show ?thesis unfolding Atom Opt by (rule opt) (rule Cons, rule shorter)
        next
          case Plus
          show ?thesis unfolding Atom Plus by (rule plus) (rule shorter)
        next
          case Star
          show ?thesis unfolding Atom Star by (rule star) (rule Cons, rule shorter)
        next
          case Lazy
          show ?thesis unfolding Atom Lazy by (rule lazy) (rule Cons, rule shorter)
        qed
      qed
    qed
    then show ?case by blast
  qed
  then show ?thesis by blast
qed

lemma rx_match_sound:
  "rx_match rx s g = Some (rest, go, gc) \<Longrightarrow> \<exists>w. s = w @ rest \<and> accepts rx w"
proof (induction rx s g arbitrary: rest go gc rule: rx_induct)
  case (Nil s g)
  then show ?case by (cases g) simp
next
  case (GroupOpen r s g)
  then show ?case by (cases g) simp
next
  case (GroupClose r s g)
  then show ?case by (cases g) simp
next
  case (One a r s g)
  from One.prems obtain c cs where s: "s = c # cs" and ok: "atom_ok a c"
    and m: "rx_match r cs g = Some (rest, go, gc)"
    by (cases s) (simp_all split: if_splits)
  from One.IH [OF s m] obtain w where "cs = w @ rest" "accepts r w" by blast
  then have "s = (c # w) @ rest \<and> accepts (Atom a One # r) (c # w)"
    using s ok by simp
  then show ?case by blast
next
  case (Opt a r s g)
  from Opt.prems consider
      (skip) "rx_match r s g = Some (rest, go, gc)"
    | (take) c cs where "s = c # cs" "atom_ok a c" "rx_match r cs g = Some (rest, go, gc)"
    by (cases s) (simp_all split: if_splits option.splits)
  then show ?case
  proof cases
    case skip
    from Opt.IH(1) [OF skip] obtain w where "s = w @ rest" "accepts r w" by blast
    then have "s = w @ rest \<and> accepts (Atom a Opt # r) w" by simp
    then show ?thesis by blast
  next
    case take
    from Opt.IH(2) [OF take(1) take(3)] obtain w where "cs = w @ rest" "accepts r w" by blast
    then have "s = (c # w) @ rest \<and> accepts (Atom a Opt # r) (c # w)"
      using take by simp
    then show ?thesis by blast
  qed
next
  case (Plus a r s g)
  from Plus.prems obtain c cs where s: "s = c # cs" and ok: "atom_ok a c"
    and m: "rx_match (Atom a Star # r) cs g = Some (rest, go, gc)"
    by (cases s) (simp_all split: if_splits)
  from Plus.IH [OF s m] obtain w where "cs = w @ rest" "accepts (Atom a Star # r) w" by blast
  then have "s = (c # w) @ rest \<and> accepts (Atom a Plus # r) (c # w)"
    using s ok by simp
  then show ?case by blast
next
  case (Star a r s g)
  from Star.prems consider
      (skip) "rx_match r s g = Some (rest, go, gc)"
    | (take) c cs where "s = c # cs" "atom_ok a c"
        "rx_match (Atom a Star # r) cs g = Some (rest, go, gc)"
    by (cases s) (simp_all split: if_splits option.splits)
  then show ?case
  proof cases
    case skip
    from Star.IH(1) [OF skip] obtain w where "s = w @ rest" "accepts r w" by blast
    then have "s = w @ rest \<and> accepts (Atom a Star # r) w" by simp
    then show ?thesis by blast
  next
    case take
    from Star.IH(2) [OF take(1) take(3)] obtain w
      where "cs = w @ rest" "accepts (Atom a Star # r) w" by blast
    then have "s = (c # w) @ rest \<and> accepts (Atom a Star # r) (c # w)"
      using take by simp
    then show ?thesis by blast
  qed
next
  case (Lazy a r s g)
  from Lazy.prems consider
      (skip) "rx_match r s g = Some (rest, go, gc)"
    | (take) c cs where "s = c # cs" "atom_ok a c"
        "rx_match (Atom a Lazy # r) cs g = Some (rest, go, gc)"
    by (cases s) (simp_all split: if_splits option.splits)
  then show ?case
  proof cases
    case skip
    from Lazy.IH(1) [OF skip] obtain w where "s = w @ rest" "accepts r w" by blast
    then have "s = w @ rest \<and> accepts (Atom a Lazy # r) w" by simp
    then show ?thesis by blast
  next
    case take
    from Lazy.IH(2) [OF take(1) take(3)] obtain w
      where "cs = w @ rest" "accepts (Atom a Lazy # r) w" by blast
    then have "s = (c # w) @ rest \<and> accepts (Atom a Lazy # r) (c # w)"
      using take by simp
    then show ?thesis by blast
  qed
qed

lemma rx_match_complete:
  "accepts rx w \<Longrightarrow> rx_match rx (w @ rest) (go, gc) \<noteq> None"
proof (induction rx w arbitrary: go gc rule: accepts.induct)
  case (1 w)
  then show ?case by simp
next
  case (2 r w)
  then show ?case by simp
next
  case (3 r w)
  then show ?case by simp
next
  case (4 a r w)
  then show ?case by (cases w) auto
next
  case (5 a r w)
  show ?case
  proof (cases "accepts r w")
    case True
    with 5 have "rx_match r (w @ rest) (go, gc) \<noteq> None" by blast
    then show ?thesis by (cases "w @ rest") (auto split: option.splits)
  next
    case False
    with "5.prems" obtain c cs where w: "w = c # cs" and ok: "atom_ok a c" and acc: "accepts r cs"
      by (cases w) auto
    with 5 have "rx_match r (cs @ rest) (go, gc) \<noteq> None" by blast
    then show ?thesis using w ok by auto
  qed
next
  case (6 a r w)
  then show ?case by (cases w) auto
next
  case (7 a r w)
  show ?case
  proof (cases "accepts r w")
    case True
    with 7 have "rx_match r (w @ rest) (go, gc) \<noteq> None" by blast
    then show ?thesis by (cases "w @ rest") (auto split: option.splits)
  next
    case False
    with "7.prems" obtain c cs where w: "w = c # cs" and ok: "atom_ok a c"
      and acc: "accepts (Atom a Star # r) cs"
      by (cases w) auto
    with 7 have "rx_match (Atom a Star # r) (cs @ rest) (go, gc) \<noteq> None" by blast
    then show ?thesis using w ok by auto
  qed
next
  case (8 a r w)
  show ?case
  proof (cases "accepts r w")
    case True
    with 8 have "rx_match r (w @ rest) (go, gc) \<noteq> None" by blast
    then show ?thesis by (auto split: option.splits)
  next
    case False
    with "8.prems" obtain c cs where w: "w = c # cs" and ok: "atom_ok a c"
      and acc: "accepts (Atom a Lazy # r) cs"
      by (cases w) auto
    with 8 have "rx_match (Atom a Lazy # r) (cs @ rest) (go, gc) \<noteq> None" by blast
    then show ?thesis using w ok by (auto split: option.splits)
  qed
qed

lemma accepts_append_I:
  "accepts r1 u \<Longrightarrow> accepts r2 v \<Longrightarrow> accepts (r1 @ r2) (u @ v)"
proof (induction r1 u "([]::string, []::string)" rule: rx_induct)
  case (Nil s)
  then show ?case by simp
next
  case (GroupOpen r s)
  then show ?case by simp
next
  case (GroupClose r s)
  then show ?case by simp
next
  case (One a r s)
  then show ?case by (cases s) auto
next
  case (Opt a r s)
  then show ?case by (cases s) auto
next
  case (Plus a r s)
  then show ?case by (cases s) auto
next
  case (Star a r s)
  then show ?case by (cases s) auto
next
  case (Lazy a r s)
  then show ?case by (cases s) auto
qed

lemma accepts_append_D:
  "accepts (r1 @ r2) w \<Longrightarrow> \<exists>u v. w = u @ v \<and> accepts r1 u \<and> accepts r2 v"
proof (induction r1 w "([]::string, []::string)" rule: rx_induct)
  case (Nil s)
  then show ?case by simp
next
  case (GroupOpen r s)
  then show ?case by simp
next
  case (GroupClose r s)
  then show ?case by simp
next
  case (One a r s)
  from One.prems obtain c cs where s: "s = c # cs" and ok: "atom_ok a c"
    and m: "accepts (r @ r2) cs"
    by (cases s) simp_all
  from One.hyps [OF s m] obtain u v where "cs = u @ v" "accepts r u" "accepts r2 v" by blast
  then have "s = (c # u) @ v \<and> accepts (Atom a One # r) (c # u) \<and> accepts r2 v"
    using s ok by simp
  then show ?case by blast
next
  case (Opt a r s)
  from Opt.prems consider
      (skip) "accepts (r @ r2) s"
    | (take) c cs where "s = c # cs" "atom_ok a c" "accepts (r @ r2) cs"
    by (cases s) auto
  then show ?case
  proof cases
    case skip
    from Opt.hyps(1) [OF skip] obtain u v where "s = u @ v" "accepts r u" "accepts r2 v" by blast
    then have "s = u @ v \<and> accepts (Atom a Opt # r) u \<and> accepts r2 v" by simp
    then show ?thesis by blast
  next
    case take
    from Opt.hyps(2) [OF take(1) take(3)] obtain u v
      where "cs = u @ v" "accepts r u" "accepts r2 v" by blast
    then have "s = (c # u) @ v \<and> accepts (Atom a Opt # r) (c # u) \<and> accepts r2 v"
      using take by simp
    then show ?thesis by blast
  qed
next
  case (Plus a r s)
  from Plus.prems obtain c cs where s: "s = c # cs" and ok: "atom_ok a c"
    and m: "accepts ((Atom a Star # r) @ r2) cs"
    by (cases s) simp_all
  from Plus.hyps [OF s m] obtain u v
    where "cs = u @ v" "accepts (Atom a Star # r) u" "accepts r2 v" by blast
  then have "s = (c # u) @ v \<and> accepts (Atom a Plus # r) (c # u) \<and> accepts r2 v"
    using s ok by simp
  then show ?case by blast
next
  case (Star a r s)
  from Star.prems consider
      (skip) "accepts (r @ r2) s"
    | (take) c cs where "s = c # cs" "atom_ok a c" "accepts ((Atom a Star # r) @ r2) cs"
    by (cases s) auto
  then show ?case
  proof cases
    case skip
    from Star.hyps(1) [OF skip] obtain u v where "s = u @ v" "accepts r u" "accepts r2 v" by blast
    then have "s = u @ v \<and> accepts (Atom a Star # r) u \<and> accepts r2 v" by simp
    then show ?thesis by blast
  next
    case take
    from Star.hyps(2) [OF take(1) take(3)] obtain u v
      where "cs = u @ v" "accepts (Atom a Star # r) u" "accepts r2 v" by blast
    then have "s = (c # u) @ v \<and> accepts (Atom a Star # r) (c # u) \<and> accepts r2 v"
      using take by simp
    then show ?thesis by blast
  qed
next
  case (Lazy a r s)
  from Lazy.prems consider
      (skip) "accepts (r @ r2) s"
    | (take) c cs where "s = c # cs" "atom_ok a c" "accepts ((Atom a Lazy # r) @ r2) cs"
    by (cases s) auto
  then show ?case
  proof cases
    case skip
    from Lazy.hyps(1) [OF skip] obtain u v where "s = u @ v" "accepts r u" "accepts r2 v" by blast
    then have "s = u @ v \<and> accepts (Atom a Lazy # r) u \<and> accepts r2 v" by simp
    then show ?thesis by blast
  next
    case take
    from Lazy.hyps(2) [OF take(1) take(3)] obtain u v
      where "cs = u @ v" "accepts (Atom a Lazy # r) u" "accepts r2 v" by blast
    then have "s = (c # u) @ v \<and> accepts (Atom a Lazy # r) (c # u) \<and> accepts r2 v"
      using take by simp
    then show ?thesis by blast
  qed
qed

lemma accepts_append:
  "accepts (r1 @ r2) w = (\<exists>u v. w = u @ v \<and> accepts r1 u \<and> accepts r2 v)"
  using accepts_append_D accepts_append_I by blast

lemma re_search_None_drop:
  "re_search rx s = None \<Longrightarrow> k \<le> length s \<Longrightarrow>
     rx_match rx (drop k s) (drop k s, drop k s) = None"
proof (induction s arbitrary: k)
  case Nil
  then show ?case by (simp split: option.splits)
next
  case (Cons c cs)
  from Cons.prems(1) have here: "rx_match rx (c # cs) (c # cs, c # cs) = None"
    and later: "re_search rx cs = None"
    by (simp_all split: option.splits)
  show ?case
  proof (cases k)
    case 0
    with here show ?thesis by simp
  next
    case (Suc j)
    with Cons.prems(2) have "j \<le> length cs" by simp
    from Cons.IH [OF later this] show ?thesis using Suc by simp
  qed
qed

lemma re_search_Some_drop:
  "re_search rx s = Some m \<Longrightarrow>
     \<exists>k res. k \<le> length s \<and> rx_match rx (drop k s) (drop k s, drop k s) = Some res
       \<and> m = mk_match (drop k s) res
       \<and> (\<forall>j<k. rx_match rx (drop j s) (drop j s, drop j s) = None)"
proof (induction s)
  case Nil
  then obtain res where "rx_match rx [] ([], []) = Some res" "m = mk_match [] res"
    by (auto split: option.splits)
  then have "(0::nat) \<le> length ([]::string) \<and> rx_match rx (drop 0 []) (drop 0 [], drop 0 []) = Some res
       \<and> m = mk_match (drop 0 []) res
       \<and> (\<forall>j<0. rx_match rx (drop j []) (drop j [], drop j []) = None)"
    by simp
  then show ?case by blast
next
  case (Cons c cs)
  show ?case
  proof (cases "rx_match rx (c # cs) (c # cs, c # cs)")
    case (Some res)
    with Cons.prems have "m = mk_match (c # cs) res" by simp
    with Some have "0 \<le> length (c # cs)
       \<and> rx_match rx (drop 0 (c # cs)) (drop 0 (c # cs), drop 0 (c # cs)) = Some res
       \<and> m = mk_match (drop 0 (c # cs)) res
       \<and> (\<forall>j<0. rx_match rx (drop j (c # cs)) (drop j (c # cs), drop j (c # cs)) = None)"
      by simp
    then show ?thesis by blast
  next
    case None
    with Cons.prems have "re_search rx cs = Some m" by simp
    from Cons.IH [OF this] obtain k res where k: "k \<le> length cs"
      and r: "rx_match rx (drop k cs) (drop k cs, drop k cs) = Some res"
      and m: "m = mk_match (drop k cs) res"
      and first: "\<forall>j<k. rx_match rx (drop j cs) (drop j cs, drop j cs) = None"
      by blast
    have "\<forall>j<Suc k. rx_match rx (drop j (c # cs)) (drop j (c # cs), drop j (c # cs)) = None"
    proof (intro allI impI)
      fix j assume "j < Suc k"
      then show "rx_match rx (drop j (c # cs)) (drop j (c # cs), drop j (c # cs)) = None"
        using None first by (cases j) simp_all
    qed
    with k r m have "Suc k \<le> length (c # cs)
       \<and> rx_match rx (drop (Suc k) (c # cs)) (drop (Suc k) (c # cs), drop (Suc k) (c # cs)) = Some res
       \<and> m = mk_match (drop (Suc k) (c # cs)) res
       \<and> (\<forall>j<Suc k. rx_match rx (drop j (c # cs)) (drop j (c # cs), drop j (c # cs)) = None)"
      by simp
    then show ?thesis by blast
  qed
qed

lemma re_search_None_iff: "re_search rx s = None \<longleftrightarrow> \<not> contains rx s"
proof
  assume none: "re_search rx s = None"
  show "\<not> contains rx s"
  proof
    assume "contains rx s"
    then obtain pre w suf where s: "s = pre @ w @ suf" and acc: "accepts rx w"
      unfolding contains_def by blast
    have "length pre \<le> length s" using s by simp
    from re_search_None_drop [OF none this]
    have "rx_match rx (w @ suf) (w @ suf, w @ suf) = None" using s by simp
    with rx_match_complete [OF acc] show False by blast
  qed
next
  assume no: "\<not> contains rx s"
  show "re_search rx s = None"
  proof (rule ccontr)
    assume "re_search rx s \<noteq> None"
    then obtain m where "re_search rx s = Some m" by blast
    from re_search_Some_drop [OF this] obtain k res
      where r: "rx_match rx (drop k s) (drop k s, drop k s) = Some res" by blast
    obtain rest go gc where "res = (rest, go, gc)" by (cases res)
    with r rx_match_sound obtain w where w: "drop k s = w @ rest" and acc: "accepts rx w"
      by blast
    have "s = take k s @ w @ rest" using w by (metis append_take_drop_id)
    with acc no show False unfolding contains_def by blast
  qed
qed

lemma re_search_Some_first:
  assumes "re_search rx s = Some m"
  shows "\<exists>pre. s = pre @ m_group0 m @ m_rest m \<and> accepts rx (m_group0 m)
           \<and> (\<forall>pre' w' suf'. s = pre' @ w' @ suf' \<and> accepts rx w' \<longrightarrow> length pre \<le> length pre')"
proof -
  from re_search_Some_drop [OF assms] obtain k res where k: "k \<le> length s"
    and r: "rx_match rx (drop k s) (drop k s, drop k s) = Some res"
    and m: "m = mk_match (drop k s) res"
    and first: "\<forall>j<k. rx_match rx (drop j s) (drop j s, drop j s) = None"
    by blast
  obtain rest go gc where res: "res = (rest, go, gc)" by (cases res)
  with r rx_match_sound obtain w where w: "drop k s = w @ rest" and acc: "accepts rx w"
    by blast
  have g0: "m_group0 m = w" and mr: "m_rest m = rest"
    using m res w by (simp_all add: mk_match_def)
  have split: "s = take k s @ m_group0 m @ m_rest m"
    using w g0 mr by (metis append_take_drop_id)
  have least: "length (take k s) \<le> length pre'"
    if "s = pre' @ w' @ suf'" and "accepts rx w'" for pre' w' suf'
  proof (rule ccontr)
    assume "\<not> length (take k s) \<le> length pre'"
    then have "length pre' < k" using k by simp
    with first have "rx_match rx (drop (length pre') s) (drop (length pre') s, drop (length pre') s) = None"
      by blast
    then have "rx_match rx (w' @ suf') (w' @ suf', w' @ suf') = None" using that(1) by simp
    with rx_match_complete [OF that(2)] show False by blast
  qed
  from split acc g0 least show ?thesis by blast
qed

text \<open>Group marks.\<close>

lemma rx_match_no_groups:
  "GroupOpen \<notin> set rx \<Longrightarrow> GroupClose \<notin> set rx \<Longrightarrow>
     rx_match rx s g = Some (rest, go, gc) \<Longrightarrow> (go, gc) = g"
proof (induction rx s g arbitrary: rest go gc rule: rx_induct)
  case (Nil s g)
  then show ?case by (cases g) simp
next
  case (GroupOpen r s g)
  then show ?case by simp
next
  case (GroupClose r s g)
  then show ?case by simp
next
  case (One a r s g)
  then show ?case by (cases s) (auto split: if_splits)
next
  case (Opt a r s g)
  then show ?case by (cases s) (auto split: if_splits option.splits)
next
  case (Plus a r s g)
  then show ?case by (cases s) (auto split: if_splits)
next
  case (Star a r s g)
  then show ?case by (cases s) (auto split: if_splits option.splits)
next
  case (Lazy a r s g)
  then show ?case by (cases s) (auto split: if_splits option.splits)
qed

lemma rx_match_close_last:
  "rx_match (rx @ [GroupClose]) s g =
     (case rx_match rx s g of None \<Rightarrow> None | Some (rest, go, gc) \<Rightarrow> Some (rest, go, rest))"
proof (induction rx s g rule: rx_induct)
  case (Nil s g)
  then show ?case by (cases g) simp
next
  case (GroupOpen r s g)
  then show ?case by (cases g) simp
next
  case (GroupClose r s g)
  then show ?case by (cases g) simp
next
  case (One a r s g)
  then show ?case by (cases s) auto
next
  case (Opt a r s g)
  then show ?case by (cases s) (auto split: option.splits)
next
  case (Plus a r s g)
  then show ?case by (cases s) auto
next
  case (Star a r s g)
  then show ?case by (cases s) (auto split: option.splits)
next
  case (Lazy a r s g)
  then show ?case by (cases s) (auto split: option.splits)
qed

lemma rx_match_whole_group:
  assumes "GroupOpen \<notin> set body" and "GroupClose \<notin> set body"
    and "rx_match (GroupOpen # body @ [GroupClose]) s g = Some (rest, go, gc)"
  shows "go = s \<and> gc = rest"
proof -
  obtain go0 gc0 where g: "g = (go0, gc0)" by (cases g)
  from assms(3) g have "rx_match (body @ [GroupClose]) s (s, gc0) = Some (rest, go, gc)"
    by simp
  then obtain go' gc' where b: "rx_match body s (s, gc0) = Some (rest, go', gc')"
    and "go = go'" "gc = rest"
    by (auto simp: rx_match_close_last split: option.splits)
  moreover from rx_match_no_groups [OF assms(1,2) b] have "go' = s" by simp
  ultimately show ?thesis by simp
qed

lemma re_search_whole_group:
  assumes "GroupOpen \<notin> set body" and "GroupClose \<notin> set body"
    and "re_search (GroupOpen # body @ [GroupClose]) s = Some m"
  shows "m_group1 m = m_group0 m"
proof -
  from re_search_Some_drop [OF assms(3)] obtain k res
    where r: "rx_match (GroupOpen # body @ [GroupClose]) (drop k s) (drop k s, drop k s) = Some res"
    and m: "m = mk_match (drop k s) res"
    by blast
  obtain rest go gc where res: "res = (rest, go, gc)" by (cases res)
  from rx_match_whole_group [OF assms(1,2)] r res have "go = drop k s" "gc = rest" by blast+
  with m res show ?thesis by (simp add: mk_match_def)
qed

text \<open>A greedy run at the end of a pattern takes every character it can.\<close>

lemma rx_match_star_end:
  "rx_match [Atom a Star, GroupClose] s (go, gc) =
     Some (dropWhile (atom_ok a) s, go, dropWhile (atom_ok a) s)"
  by (induction s) simp_all

lemma rx_match_tail:
  "rx_match (r1 @ r2) s g = Some res \<Longrightarrow> \<exists>s' g'. rx_match r2 s' g' = Some res"
proof (induction r1 s g rule: rx_induct)
  case (Nil s g)
  then have "rx_match r2 s g = Some res" by simp
  then show ?case by (rule_tac x = s in exI, rule_tac x = g in exI)
next
  case (GroupOpen r s g)
  then show ?case by (cases g) auto
next
  case (GroupClose r s g)
  then show ?case by (cases g) auto
next
  case (One a r s g)
  then show ?case by (cases s) (auto split: if_splits)
next
  case (Opt a r s g)
  then show ?case by (cases s) (auto split: if_splits option.splits)
next
  case (Plus a r s g)
  then show ?case by (cases s) (auto split: if_splits)
next
  case (Star a r s g)
  then show ?case by (cases s) (auto split: if_splits option.splits)
next
  case (Lazy a r s g)
  then show ?case by (cases s) (auto split: if_splits option.splits)
qed

lemma rx_match_plus_end:
  assumes "rx_match (r1 @ [Atom a Plus, GroupClose]) s g = Some (rest, go, gc)"
  shows "case rest of [] \<Rightarrow> True | c # _ \<Rightarrow> \<not> atom_ok a c"
proof -
  from rx_match_tail [OF assms] obtain s' g'
    where "rx_match [Atom a Plus, GroupClose] s' g' = Some (rest, go, gc)" by blast
  then obtain cs where "rx_match [Atom a Star, GroupClose] cs g' = Some (rest, go, gc)"
    by (cases s') (auto split: if_splits)
  moreover obtain go' gc' where "g' = (go', gc')" by (cases g')
  ultimately have "rest = dropWhile (atom_ok a) cs"
    by (simp only: rx_match_star_end option.inject prod.inject)
  then have rest: "dropWhile (atom_ok a) cs = rest" by simp
  show ?thesis
  proof (cases rest)
    case Nil
    then show ?thesis by simp
  next
    case (Cons c t)
    with rest hd_dropWhile [of "atom_ok a" cs] have "\<not> atom_ok a c" by simp
    with Cons show ?thesis by simp
  qed
qed

text \<open>The successive matches.\<close>

lemma re_finditer_Nil_iff: "re_finditer rx s = [] \<longleftrightarrow> re_search rx s = None"
  by (subst re_finditer.simps) (simp split: option.splits)

lemma re_finditer_member:
  "m \<in> set (re_finditer rx s) \<Longrightarrow> \<exists>pre t. s = pre @ t \<and> re_search rx t = Some m"
proof (induction s arbitrary: m rule: length_induct)
  case (1 s)
  show ?case
  proof (cases "re_search rx s")
    case None
    then have "re_finditer rx s = []" by (simp add: re_finditer_Nil_iff)
    with "1.prems" show ?thesis by simp
  next
    case (Some m0)
    have unfold: "re_finditer rx s =
        m0 # (if m_group0 m0 = []
              then (case m_rest m0 of [] \<Rightarrow> [] | c # cs \<Rightarrow> re_finditer rx cs)
              else re_finditer rx (m_rest m0))"
      using Some by (subst re_finditer.simps) simp
    from re_search_split [OF Some] obtain p0 where s: "s = p0 @ m_group0 m0 @ m_rest m0"
      by blast
    show ?thesis
    proof (cases "m = m0")
      case True
      with Some have "s = [] @ s \<and> re_search rx s = Some m" by simp
      then show ?thesis by blast
    next
      case False
      show ?thesis
      proof (cases "m_group0 m0 = []")
        case empty: True
        with "1.prems" unfold False obtain c cs where r: "m_rest m0 = c # cs"
          and mem: "m \<in> set (re_finditer rx cs)"
          by (auto split: list.splits)
        have "length cs < length s"
          using re_search_rest_length(1) [OF Some] r by simp
        with "1.IH" mem obtain pre t where "cs = pre @ t" "re_search rx t = Some m" by blast
        then have "s = (p0 @ m_group0 m0 @ c # pre) @ t \<and> re_search rx t = Some m"
          using s r by simp
        then show ?thesis by blast
      next
        case nonempty: False
        with "1.prems" unfold False have mem: "m \<in> set (re_finditer rx (m_rest m0))"
          by auto
        have "length (m_rest m0) < length s"
          using re_search_rest_length(2) [OF Some nonempty] .
        with "1.IH" mem obtain pre t where "m_rest m0 = pre @ t" "re_search rx t = Some m"
          by blast
        then have "s = (p0 @ m_group0 m0 @ pre) @ t \<and> re_search rx t = Some m"
          using s by simp
        then show ?thesis by blast
      qed
    qed
  qed
qed

lemma re_finditer_accepts:
  assumes "m \<in> set (re_finditer rx s)"
  shows "accepts rx (m_group0 m) \<and> (\<exists>pre. s = pre @ m_group0 m @ m_rest m)"
proof -
  from re_finditer_member [OF assms] obtain pre t
    where s: "s = pre @ t" and t: "re_search rx t = Some m" by blast
  from re_search_Some_first [OF t] obtain p where "t = p @ m_group0 m @ m_rest m"
    and acc: "accepts rx (m_group0 m)" by blast
  with s have "s = (pre @ p) @ m_group0 m @ m_rest m" by simp
  with acc show ?thesis by blast
qed

lemma re_finditer_whole_group:
  assumes "GroupOpen \<notin> set body" and "GroupClose \<notin> set body"
    and "m \<in> set (re_finditer (GroupOpen # body @ [GroupClose]) s)"
  shows "m_group1 m = m_group0 m"
proof -
  from re_finditer_member [OF assms(3)] obtain t
    where "re_search (GroupOpen # body @ [GroupClose]) t = Some m" by blast
  from re_search_whole_group [OF assms(1,2) this] show ?thesis .
qed

text \<open>Literal runs.\<close>

lemma accepts_lits:
  "accepts (lits p @ r) w \<longleftrightarrow> (\<exists>u v. w = u @ v \<and> map lower u = map lower p \<and> accepts r v)"
proof (induction p arbitrary: w)
  case Nil
  then show ?case by (simp add: lits_def)
next
  case (Cons x p)
  have step: "accepts (lits (x # p) @ r) w
      \<longleftrightarrow> (\<exists>c cs. w = c # cs \<and> lower c = lower x \<and> accepts (lits p @ r) cs)"
    by (cases w) (simp_all add: lits_def)
  show ?case
  proof
    assume "accepts (lits (x # p) @ r) w"
    with step obtain c cs where w: "w = c # cs" and c: "lower c = lower x"
      and "accepts (lits p @ r) cs" by blast
    with Cons obtain u v where "cs = u @ v" "map lower u = map lower p" "accepts r v"
      by blast
    then have "w = (c # u) @ v \<and> map lower (c # u) = map lower (x # p) \<and> accepts r v"
      using w c by simp
    then show "\<exists>u v. w = u @ v \<and> map lower u = map lower (x # p) \<and> accepts r v" by blast
  next
    assume "\<exists>u v. w = u @ v \<and> map lower u = map lower (x # p) \<and> accepts r v"
    then obtain u v where w: "w = u @ v" and u: "map lower u = map lower (x # p)"
      and v: "accepts r v" by blast
    from u obtain c u' where u': "u = c # u'" "lower c = lower x" "map lower u' = map lower p"
      by (cases u) auto
    with Cons v have "accepts (lits p @ r) (u' @ v)" by blast
    with step w u' show "accepts (lits (x # p) @ r) w" by simp
  qed
qed

lemma accepts_opt:
  "accepts (Atom a Opt # r) w \<longleftrightarrow>
     (\<exists>u v. w = u @ v \<and> length u \<le> 1 \<and> list_all (atom_ok a) u \<and> accepts r v)"
proof
  assume "accepts (Atom a Opt # r) w"
  then consider "accepts r w" | c cs where "w = c # cs" "atom_ok a c" "accepts r cs"
    by (cases w) auto
  then show "\<exists>u v. w = u @ v \<and> length u \<le> 1 \<and> list_all (atom_ok a) u \<and> accepts r v"
  proof cases
    case 1
    then have "w = [] @ w \<and> length ([]::string) \<le> 1 \<and> list_all (atom_ok a) [] \<and> accepts r w"
      by simp
    then show ?thesis by blast
  next
    case 2
    then have "w = [c] @ cs \<and> length [c] \<le> 1 \<and> list_all (atom_ok a) [c] \<and> accepts r cs"
      by simp
    then show ?thesis by blast
  qed
next
  assume "\<exists>u v. w = u @ v \<and> length u \<le> 1 \<and> list_all (atom_ok a) u \<and> accepts r v"
  then obtain u v where w: "w = u @ v" and u: "length u \<le> 1" "list_all (atom_ok a) u"
    and v: "accepts r v" by blast
  show "accepts (Atom a Opt # r) w"
  proof (cases u)
    case Nil
    with w v show ?thesis by simp
  next
    case (Cons c u')
    with u have "u' = []" "atom_ok a c" by simp_all
    with Cons w v show ?thesis by simp
  qed
qed

lemma accepts_one:
  "accepts (Atom a One # r) w \<longleftrightarrow> (\<exists>c v. w = c # v \<and> atom_ok a c \<and> accepts r v)"
  by (cases w) auto

lemma accepts_star:
  "accepts (Atom a Star # r) w \<longleftrightarrow>
     (\<exists>u v. w = u @ v \<and> list_all (atom_ok a) u \<and> accepts r v)"
proof
  show "accepts (Atom a Star # r) w \<Longrightarrow>
     \<exists>u v. w = u @ v \<and> list_all (atom_ok a) u \<and> accepts r v"
  proof (induction w)
    case Nil
    then have "([]::string) = [] @ [] \<and> list_all (atom_ok a) [] \<and> accepts r []" by simp
    then show ?case by blast
  next
    case (Cons c cs)
    from Cons.prems consider "accepts r (c # cs)"
      | "atom_ok a c" "accepts (Atom a Star # r) cs"
      by auto
    then show ?case
    proof cases
      case 1
      then have "c # cs = [] @ (c # cs) \<and> list_all (atom_ok a) [] \<and> accepts r (c # cs)"
        by simp
      then show ?thesis by blast
    next
      case 2
      with Cons.IH obtain u v where "cs = u @ v" "list_all (atom_ok a) u" "accepts r v"
        by blast
      with 2 have "c # cs = (c # u) @ v \<and> list_all (atom_ok a) (c # u) \<and> accepts r v"
        by simp
      then show ?thesis by blast
    qed
  qed
next
  assume "\<exists>u v. w = u @ v \<and> list_all (atom_ok a) u \<and> accepts r v"
  then obtain u v where w: "w = u @ v" and u: "list_all (atom_ok a) u" and v: "accepts r v"
    by blast
  from u v have "accepts (Atom a Star # r) (u @ v)"
  proof (induction u)
    case Nil
    then show ?case by simp
  next
    case (Cons c u)
    then show ?case by simp
  qed
  with w show "accepts (Atom a Star # r) w" by simp
qed

lemma accepts_plus:
  "accepts (Atom a Plus # r) w \<longleftrightarrow>
     (\<exists>u v. w = u @ v \<and> u \<noteq> [] \<and> list_all (atom_ok a) u \<and> accepts r v)"
proof
  assume "accepts (Atom a Plus # r) w"
  then obtain c cs where w: "w = c # cs" and c: "atom_ok a c"
    and "accepts (Atom a Star # r) cs"
    by (cases w) auto
  from this(3) [unfolded accepts_star] obtain u v
    where "cs = u @ v" "list_all (atom_ok a) u" "accepts r v"
    by blast
  with w c have "w = (c # u) @ v \<and> c # u \<noteq> [] \<and> list_all (atom_ok a) (c # u) \<and> accepts r v"
    by simp
  then show "\<exists>u v. w = u @ v \<and> u \<noteq> [] \<and> list_all (atom_ok a) u \<and> accepts r v" by blast
next
  assume "\<exists>u v. w = u @ v \<and> u \<noteq> [] \<and> list_all (atom_ok a) u \<and> accepts r v"
  then obtain u v where w: "w = u @ v" and u: "u \<noteq> []" "list_all (atom_ok a) u"
    and v: "accepts r v" by blast
  from u obtain c u' where u': "u = c # u'" "atom_ok a c" "list_all (atom_ok a) u'"
    by (cases u) auto
  with v have "\<exists>x y. u' @ v = x @ y \<and> list_all (atom_ok a) x \<and> accepts r y" by blast
  then have "accepts (Atom a Star # r) (u' @ v)" by (simp only: accepts_star)
  with w u' show "accepts (Atom a Plus # r) w" by simp
qed

section \<open>The identifier pattern\<close>

lemma id_rx_body: "id_rx = GroupOpen # id_body @ [GroupClose]"
  by (simp add: id_rx_def id_body_def)

lemma lits_no_groups: "GroupOpen \<notin> set (lits p)" "GroupClose \<notin> set (lits p)"
  by (auto simp: lits_def)

lemma id_body_no_groups: "GroupOpen \<notin> set id_body" "GroupClose \<notin> set id_body"
  by (simp_all add: id_body_def lits_no_groups)

lemma accepts_id_rx_body: "accepts id_rx w = accepts id_body w"
proof -
  have "accepts (id_body @ [GroupClose]) w = accepts id_body w"
    by (simp add: accepts_append)
  then show ?thesis by (simp add: id_rx_body)
qed

lemma accepts_id_body_nonempty: "accepts id_body w \<Longrightarrow> w \<noteq> []"
  unfolding id_body_def accepts_lits by auto

lemma re_search_id_rx_group:
  assumes "re_search id_rx s = Some m"
  shows "m_group1 m = m_group0 m" and "m_group0 m \<noteq> []"
proof -
  from assms show "m_group1 m = m_group0 m"
    unfolding id_rx_body by (rule re_search_whole_group [OF id_body_no_groups])
  from re_search_Some_first [OF assms] have "accepts id_rx (m_group0 m)" by blast
  then show "m_group0 m \<noteq> []"
    by (simp add: accepts_id_rx_body accepts_id_body_nonempty)
qed

lemma ochmo_id_parse_ochmo_id:
  "ochmo_id (parse_ochmo_id r) =
     (case re_search id_rx (url r) of None \<Rightarrow> None | Some m \<Rightarrow> Some (str_upper (m_group1 m)))"
  by (simp add: parse_ochmo_id_def split: option.splits)

lemma str_upper_Nil_iff: "str_upper s = [] \<longleftrightarrow> s = []"
  by (cases s) (simp_all add: str_upper_def toupper_def)

lemma truthy_ochmo_id: "truthy (ochmo_id (parse_ochmo_id r)) \<longleftrightarrow> ochmo_id (parse_ochmo_id r) \<noteq> None"
  by (auto simp: ochmo_id_parse_ochmo_id truthy_def str_upper_Nil_iff re_search_id_rx_group
      split: option.splits)

section \<open>What the steps of parse leave alone\<close>

lemma parse_ochmo_id_fields [simp]:
  "url (parse_ochmo_id r) = url r"
  "title (parse_ochmo_id r) = title r"
  "technical_requirements_docs (parse_ochmo_id r) = technical_requirements_docs r"
  "technical_requirements (parse_ochmo_id r) = technical_requirements r"
  "pdf_bytes (parse_ochmo_id r) = pdf_bytes r"
  by (simp_all add: parse_ochmo_id_def split: option.splits)

lemma parse_title_fields [simp]:
  "url (parse_title r) = url r"
  "ochmo_id (parse_title r) = ochmo_id r"
  "technical_requirements_docs (parse_title r) = technical_requirements_docs r"
  "technical_requirements (parse_title r) = technical_requirements r"
  "pdf_bytes (parse_title r) = pdf_bytes r"
  by (simp_all add: parse_title_def split: option.splits)

lemma fetch_pdf_content_fields [simp]:
  "url (fetch_pdf_content e r) = url r"
  "ochmo_id (fetch_pdf_content e r) = ochmo_id r"
  "title (fetch_pdf_content e r) = title r"
  "technical_requirements_docs (fetch_pdf_content e r) = technical_requirements_docs r"
  "technical_requirements (fetch_pdf_content e r) = technical_requirements r"
  by (simp_all add: fetch_pdf_content_def split: sum.splits)

lemma append_docs_eq:
  "append_docs docs ms = docs @ map (\<lambda>m. str_replace '' -'' ''-'' (m_group1 m)) ms"
  by (induction ms arbitrary: docs) simp_all

lemma append_reqs_eq: "append_reqs reqs ms = reqs @ map m_group1 ms"
  by (induction ms arbitrary: reqs) simp_all

lemma parse_technical_requirements_fields [simp]:
  "url (parse_technical_requirements r t) = url r"
  "ochmo_id (parse_technical_requirements r t) = ochmo_id r"
  "title (parse_technical_requirements r t) = title r"
  "pdf_bytes (parse_technical_requirements r t) = pdf_bytes r"
  "technical_requirements_docs (parse_technical_requirements r t) =
     technical_requirements_docs r
     @ map (\<lambda>m. str_replace '' -'' ''-'' (m_group1 m)) (re_finditer std_rx t)"
  "technical_requirements (parse_technical_requirements r t) =
     technical_requirements r @ map m_group1 (re_finditer req_rx t)"
  by (simp_all add: parse_technical_requirements_def Let_def append_docs_eq append_reqs_eq)

lemma parse_url: "url (parse e r) = url r"
  by (simp add: parse_def Let_def split: option.splits sum.splits list.splits)

lemma parse_ochmo_id_eq: "ochmo_id (parse e r) = ochmo_id (parse_ochmo_id r)"
  by (simp add: parse_def Let_def split: option.splits sum.splits list.splits)

lemma parse_title_eq: "title (parse e r) = title (parse_title (parse_ochmo_id r))"
  by (simp add: parse_def Let_def split: option.splits sum.splits list.splits)

lemma truthy_parse: "truthy (ochmo_id (parse e r)) \<longleftrightarrow> ochmo_id (parse e r) \<noteq> None"
  by (simp add: parse_ochmo_id_eq truthy_ochmo_id)

section \<open>The loops\<close>

lemma scrape_loop_eq:
  "scrape_loop e us reports =
     reports @ filter (\<lambda>r. ochmo_id r \<noteq> None) (map (\<lambda>u. parse e (PdfReport_init u)) us)"
  by (induction us arbitrary: reports) (simp_all add: Let_def truthy_parse)

lemma links_loop_eq:
  "links_loop e base hrefs links =
     links @ map (urljoin e base) (filter (\<lambda>href. re_search link_rx href \<noteq> None) hrefs)"
  by (induction hrefs arbitrary: links) simp_all

section \<open>The first listing page, evaluated\<close>

lemma demo_links:
  "list_pdf_links demo_env demo_scraper =
     [''https://h/briefs/ochmo-tb-7-noise.pdf?v=1'', ''https://h/briefs/ochmo-mtb-12-co2.pdf?v=2'']"
  by code_simp

lemma demo_first: "parse demo_env (PdfReport_init ''https://h/briefs/ochmo-tb-7-noise.pdf?v=1'') =
     \<lparr> url = ''https://h/briefs/ochmo-tb-7-noise.pdf?v=1'', ochmo_id = Some (ustr ''OCHMO-TB-7''),
       title = Some (ustr ''Noise''), technical_requirements_docs = [''NASA-STD-3001 Volume 2, Rev A''],
       technical_requirements = [''V2 104''], pdf_bytes = Some [2] \<rparr>"
  by code_simp

lemma demo_second: "parse demo_env (PdfReport_init ''https://h/briefs/ochmo-mtb-12-co2.pdf?v=2'') =
     \<lparr> url = ''https://h/briefs/ochmo-mtb-12-co2.pdf?v=2'', ochmo_id = Some (ustr ''OCHMO-MTB-12''),
       title = Some (ustr ''Co2''), technical_requirements_docs = [],
       technical_requirements = [], pdf_bytes = None \<rparr>"
  by code_simp

lemma demo_all: "map ochmo_id (scrape_reports demo_env demo_scraper None) =
   [Some (ustr ''OCHMO-TB-7''), Some (ustr ''OCHMO-MTB-12'')]"
  by code_simp

section \<open>The claims about the scraper\<close>

lemma url_parse_init: "url (parse e (PdfReport_init u)) = u"
  by (simp add: parse_url PdfReport_init_def)

text \<open>
  C1.  For every listing and every limit, what \<open>scrape_reports\<close> returns is the list of the
  parsed records, one for each URL of the truncated discovery list, without the records
  whose \<open>ochmo_id\<close> is \<open>None\<close>; the URLs of the records kept are the URLs of the truncated
  discovery list that give an identifier, in the order of that list.
\<close>

theorem scrape_reports_filtering:
  "scrape_reports e self limit =
     filter (\<lambda>r. ochmo_id r \<noteq> None)
       (map (\<lambda>u. parse e (PdfReport_init u)) (slice_to (list_pdf_links e self) limit))
   \<and> map url (scrape_reports e self limit) =
     filter (\<lambda>u. ochmo_id (parse e (PdfReport_init u)) \<noteq> None)
       (slice_to (list_pdf_links e self) limit)"
proof -
  have eq: "scrape_reports e self limit =
     filter (\<lambda>r. ochmo_id r \<noteq> None)
       (map (\<lambda>u. parse e (PdfReport_init u)) (slice_to (list_pdf_links e self) limit))"
    by (simp add: scrape_reports_def scrape_loop_eq)
  have "map url (filter (\<lambda>r. ochmo_id r \<noteq> None) (map (\<lambda>u. parse e (PdfReport_init u)) us)) =
     filter (\<lambda>u. ochmo_id (parse e (PdfReport_init u)) \<noteq> None) us" for us
    by (induction us) (simp_all add: url_parse_init)
  with eq show ?thesis by simp
qed

theorem scrape_reports_filtering_witness:
  "scrape_reports demo_env demo_scraper None =
     [parse demo_env (PdfReport_init ''https://h/briefs/ochmo-tb-7-noise.pdf?v=1''),
      parse demo_env (PdfReport_init ''https://h/briefs/ochmo-mtb-12-co2.pdf?v=2'')]
   \<and> map url (scrape_reports demo_env demo_scraper None) =
     [''https://h/briefs/ochmo-tb-7-noise.pdf?v=1'', ''https://h/briefs/ochmo-mtb-12-co2.pdf?v=2'']"
  using scrape_reports_filtering [of demo_env demo_scraper None]
  by (simp add: demo_links slice_to_def demo_first demo_second)

text \<open>
  C8.  With a limit \<open>k \<ge> 0\<close> the loop over the documents runs on the first
  \<open>min k n\<close> of the \<open>n\<close> discovered URLs, in discovery order; with no limit it runs on
  all of them.
\<close>

theorem limit_law:
  "scrape_reports e self None = scrape_loop e (list_pdf_links e self) []
   \<and> (0 \<le> k \<longrightarrow>
        scrape_reports e self (Some k) =
          scrape_loop e (take (min (nat k) (length (list_pdf_links e self))) (list_pdf_links e self)) []
        \<and> length (slice_to (list_pdf_links e self) (Some k)) =
            min (nat k) (length (list_pdf_links e self)))"
  by (simp add: scrape_reports_def slice_to_def min_def)

theorem limit_law_witness:
  "(0::int) \<le> 1
   \<and> scrape_reports demo_env demo_scraper (Some 1) =
       scrape_loop demo_env [''https://h/briefs/ochmo-tb-7-noise.pdf?v=1''] []
   \<and> length (slice_to (list_pdf_links demo_env demo_scraper) (Some 1)) = 1"
  using limit_law [of demo_env demo_scraper 1]
  by (simp add: demo_links)

text \<open>
  C10.  A negative limit \<open>- k\<close> is neither refused nor read as zero: the loop over the
  documents runs on the first \<open>n - k\<close> of the \<open>n\<close> discovered URLs, which is none of them
  when \<open>k \<ge> n\<close>.
\<close>

theorem negative_limit:
  "0 < k \<Longrightarrow>
     scrape_reports e self (Some (- int k)) =
       scrape_loop e (take (length (list_pdf_links e self) - k) (list_pdf_links e self)) []
     \<and> (length (list_pdf_links e self) \<le> k \<longrightarrow> scrape_reports e self (Some (- int k)) = [])"
proof -
  assume k: "0 < k"
  have "nat (int (length xs) - int k) = length xs - k" for xs :: "string list"
    by simp
  with k show ?thesis
    by (simp add: scrape_reports_def slice_to_def)
qed

theorem negative_limit_witness:
  "(0::nat) < 1
   \<and> scrape_reports demo_env demo_scraper (Some (- 1)) =
       scrape_loop demo_env [''https://h/briefs/ochmo-tb-7-noise.pdf?v=1''] []
   \<and> map ochmo_id (scrape_reports demo_env demo_scraper (Some (- 1))) = [Some (ustr ''OCHMO-TB-7'')]
   \<and> scrape_reports demo_env demo_scraper (Some 0) = []"
proof -
  have k: "(0::nat) < 1" by simp
  from negative_limit [OF k, of demo_env demo_scraper]
  have a: "scrape_reports demo_env demo_scraper (Some (- 1)) =
       scrape_loop demo_env [''https://h/briefs/ochmo-tb-7-noise.pdf?v=1''] []"
    by (simp add: demo_links)
  have b: "scrape_loop demo_env [''https://h/briefs/ochmo-tb-7-noise.pdf?v=1''] [] =
      [parse demo_env (PdfReport_init ''https://h/briefs/ochmo-tb-7-noise.pdf?v=1'')]"
    by (simp add: scrape_loop_eq demo_first)
  have c: "scrape_reports demo_env demo_scraper (Some 0) = []"
    by (simp add: scrape_reports_def slice_to_def)
  from k a b c show ?thesis by (simp add: demo_first)
qed

lemma parse_no_content:
  assumes "requests_get e (url r) = Inl err
     \<or> (\<exists>b. requests_get e (url r) = Inr b
           \<and> (pdf_reader e b = Inl err' \<or> (\<exists>pages. pdf_reader e b = Inr (Inl err' # pages))))"
    and "pdf_bytes r = None"
  shows "technical_requirements_docs (parse e r) = technical_requirements_docs r"
    and "technical_requirements (parse e r) = technical_requirements r"
  using assms
  by (auto simp: parse_def Let_def fetch_pdf_content_def truthy_def
      split: option.splits sum.splits list.splits)

text \<open>
  C4.  When the fetch of a document fails, or the reading of its first page fails, the
  parsed record has the identifier and the title that the URL alone gives, its two lists
  of references are empty, and the record is in what \<open>scrape_reports\<close> returns as soon as
  its URL is in the truncated discovery list and its identifier is not \<open>None\<close>.  The
  failure is a value of the collaborator; \<open>parse\<close> returns a record in every case.
\<close>

theorem content_failure_keeps_url_metadata:
  assumes "requests_get e u = Inl err
     \<or> (\<exists>b. requests_get e u = Inr b
           \<and> (pdf_reader e b = Inl err' \<or> (\<exists>pages. pdf_reader e b = Inr (Inl err' # pages))))"
  shows "ochmo_id (parse e (PdfReport_init u)) = ochmo_id (parse_ochmo_id (PdfReport_init u))
     \<and> title (parse e (PdfReport_init u)) = title (parse_title (parse_ochmo_id (PdfReport_init u)))
     \<and> technical_requirements_docs (parse e (PdfReport_init u)) = []
     \<and> technical_requirements (parse e (PdfReport_init u)) = []
     \<and> (u \<in> set (slice_to (list_pdf_links e self) limit)
          \<and> ochmo_id (parse e (PdfReport_init u)) \<noteq> None
          \<longrightarrow> parse e (PdfReport_init u) \<in> set (scrape_reports e self limit))"
proof -
  have u: "url (PdfReport_init u) = u" and b: "pdf_bytes (PdfReport_init u) = None"
    by (simp_all add: PdfReport_init_def)
  from assms have "technical_requirements_docs (parse e (PdfReport_init u)) = []"
    and "technical_requirements (parse e (PdfReport_init u)) = []"
    using parse_no_content [of e "PdfReport_init u" err err'] u b
    by (simp_all add: PdfReport_init_def)
  moreover have "scrape_reports e self limit =
     filter (\<lambda>r. ochmo_id r \<noteq> None)
       (map (\<lambda>u. parse e (PdfReport_init u)) (slice_to (list_pdf_links e self) limit))"
    by (simp add: scrape_reports_def scrape_loop_eq)
  ultimately show ?thesis
    by (simp add: parse_ochmo_id_eq parse_title_eq)
qed

theorem content_failure_keeps_url_metadata_witness:
  "requests_get demo_env ''https://h/briefs/ochmo-mtb-12-co2.pdf?v=2'' = Inl RetrievalError
   \<and> ochmo_id (parse demo_env (PdfReport_init ''https://h/briefs/ochmo-mtb-12-co2.pdf?v=2''))
       = Some (ustr ''OCHMO-MTB-12'')
   \<and> title (parse demo_env (PdfReport_init ''https://h/briefs/ochmo-mtb-12-co2.pdf?v=2''))
       = Some (ustr ''Co2'')
   \<and> technical_requirements_docs
        (parse demo_env (PdfReport_init ''https://h/briefs/ochmo-mtb-12-co2.pdf?v=2'')) = []
   \<and> technical_requirements
        (parse demo_env (PdfReport_init ''https://h/briefs/ochmo-mtb-12-co2.pdf?v=2'')) = []
   \<and> ''https://h/briefs/ochmo-mtb-12-co2.pdf?v=2''
        \<in> set (slice_to (list_pdf_links demo_env demo_scraper) None)
   \<and> parse demo_env (PdfReport_init ''https://h/briefs/ochmo-mtb-12-co2.pdf?v=2'')
        \<in> set (scrape_reports demo_env demo_scraper None)"
proof -
  have fails: "requests_get demo_env ''https://h/briefs/ochmo-mtb-12-co2.pdf?v=2'' = Inl RetrievalError"
    by (simp add: demo_env_def)
  then have hyp: "requests_get demo_env ''https://h/briefs/ochmo-mtb-12-co2.pdf?v=2'' = Inl RetrievalError
     \<or> (\<exists>b. requests_get demo_env ''https://h/briefs/ochmo-mtb-12-co2.pdf?v=2'' = Inr b
           \<and> (pdf_reader demo_env b = Inl DocumentParseError
               \<or> (\<exists>pages. pdf_reader demo_env b = Inr (Inl DocumentParseError # pages))))"
    by simp
  have listed: "''https://h/briefs/ochmo-mtb-12-co2.pdf?v=2''
        \<in> set (slice_to (list_pdf_links demo_env demo_scraper) None)"
    by (simp add: demo_links slice_to_def)
  have some: "ochmo_id (parse demo_env (PdfReport_init ''https://h/briefs/ochmo-mtb-12-co2.pdf?v=2''))
       = Some (ustr ''OCHMO-MTB-12'')"
    and title: "title (parse demo_env (PdfReport_init ''https://h/briefs/ochmo-mtb-12-co2.pdf?v=2''))
       = Some (ustr ''Co2'')"
    by (simp_all add: demo_second)
  from content_failure_keeps_url_metadata [OF hyp, of demo_scraper None]
  have "technical_requirements_docs
        (parse demo_env (PdfReport_init ''https://h/briefs/ochmo-mtb-12-co2.pdf?v=2'')) = []"
    and "technical_requirements
        (parse demo_env (PdfReport_init ''https://h/briefs/ochmo-mtb-12-co2.pdf?v=2'')) = []"
    and "parse demo_env (PdfReport_init ''https://h/briefs/ochmo-mtb-12-co2.pdf?v=2'')
        \<in> set (scrape_reports demo_env demo_scraper None)"
    using listed some by simp_all
  with fails listed some title show ?thesis by (intro conjI)
qed

section \<open>What holds of every record\<close>

lemma title_parse_title:
  "title (parse_title r) \<noteq> None \<Longrightarrow> ochmo_id r \<noteq> None \<or> title r \<noteq> None"
  by (auto simp: parse_title_def truthy_def split: if_splits option.splits)

lemma title_parse_title_truthy:
  "truthy (ochmo_id r) \<or> title (parse_title r) = title r"
  by (simp add: parse_title_def)

lemma reachable_invariant:
  "reachable e r \<Longrightarrow>
     (title r \<noteq> None \<longrightarrow> ochmo_id r \<noteq> None)
     \<and> (ochmo_id r \<noteq> None \<longrightarrow> re_search id_rx (url r) \<noteq> None)"
proof (induction rule: reachable.induct)
  case (init u)
  then show ?case by (simp add: PdfReport_init_def)
next
  case (step_parse_ochmo_id r)
  then show ?case by (auto simp: ochmo_id_parse_ochmo_id split: option.splits)
next
  case (step_parse_title r)
  then show ?case
    using title_parse_title_truthy [of r] by (auto simp: truthy_def split: option.splits)
next
  case (step_fetch_pdf_content r)
  then show ?case by simp
next
  case (step_parse_technical_requirements r page_text)
  then show ?case by simp
next
  case (step_parse r)
  have "title (parse_title (parse_ochmo_id r)) \<noteq> None \<longrightarrow> ochmo_id (parse_ochmo_id r) \<noteq> None"
    using step_parse.IH title_parse_title_truthy [of "parse_ochmo_id r"]
    by (auto simp: truthy_def ochmo_id_parse_ochmo_id split: option.splits)
  then show ?case
    by (auto simp: parse_ochmo_id_eq parse_title_eq parse_url ochmo_id_parse_ochmo_id
        split: option.splits)
qed

text \<open>
  C6.  In every record that the program can hold, the title is \<open>None\<close> when the
  identifier is \<open>None\<close>; in particular the title derived for a URL is \<open>None\<close> when the
  identifier derived for it is \<open>None\<close>.
\<close>

theorem title_needs_identifier:
  "(reachable e r \<and> ochmo_id r = None \<longrightarrow> title r = None)
   \<and> (ochmo_id (parse_ochmo_id (PdfReport_init u)) = None
        \<longrightarrow> title (parse_title (parse_ochmo_id (PdfReport_init u))) = None)"
proof -
  have "reachable e (parse_title (parse_ochmo_id (PdfReport_init u)))"
    by (intro reachable.intros)
  from reachable_invariant [OF this] have
    "ochmo_id (parse_ochmo_id (PdfReport_init u)) = None
        \<longrightarrow> title (parse_title (parse_ochmo_id (PdfReport_init u))) = None"
    by auto
  then show ?thesis using reachable_invariant [of e r] by auto
qed

theorem title_needs_identifier_witness:
  "reachable demo_env (parse demo_env (PdfReport_init ''https://h/about.html''))
   \<and> ochmo_id (parse demo_env (PdfReport_init ''https://h/about.html'')) = None
   \<and> title (parse demo_env (PdfReport_init ''https://h/about.html'')) = None
   \<and> ochmo_id (parse_ochmo_id (PdfReport_init ''https://h/about.html'')) = None
   \<and> title (parse_title (parse_ochmo_id (PdfReport_init ''https://h/about.html''))) = None"
proof -
  have r: "reachable demo_env (parse demo_env (PdfReport_init ''https://h/about.html''))"
    by (intro reachable.intros)
  have n: "ochmo_id (parse_ochmo_id (PdfReport_init ''https://h/about.html'')) = None"
    by code_simp
  then have n': "ochmo_id (parse demo_env (PdfReport_init ''https://h/about.html'')) = None"
    by (simp add: parse_ochmo_id_eq)
  from title_needs_identifier
    [of demo_env "parse demo_env (PdfReport_init ''https://h/about.html'')" "''https://h/about.html''"]
    r n n'
  show ?thesis by simp
qed

section \<open>The identifier of a URL\<close>

lemmas case_defs = lower_def uppercase_def lowercase_def

lemma opt_letter_m:
  "length m \<le> 1 \<and> list_all (atom_ok (Lit CHR ''M'')) m \<longleftrightarrow> m = [] \<or> map lower m = ''m''"
proof (cases m)
  case Nil
  then show ?thesis by simp
next
  case (Cons c cs)
  have "lower CHR ''M'' = CHR ''m''" by (simp add: case_defs)
  with Cons show ?thesis by (cases cs) auto
qed

lemma accepts_litsE:
  assumes "accepts (lits p @ r) w"
  obtains u v where "w = u @ v" and "map lower u = map lower p" and "accepts r v"
  using assms unfolding accepts_lits by blast

lemma accepts_litsI:
  "map lower u = map lower p \<Longrightarrow> accepts r v \<Longrightarrow> accepts (lits p @ r) (u @ v)"
  unfolding accepts_lits by blast

lemma accepts_optE:
  assumes "accepts (Atom a Opt # r) w"
  obtains u v where "w = u @ v" and "length u \<le> 1" and "list_all (atom_ok a) u" and "accepts r v"
  using assms unfolding accepts_opt by blast

lemma accepts_optI:
  "length u \<le> 1 \<Longrightarrow> list_all (atom_ok a) u \<Longrightarrow> accepts r v \<Longrightarrow> accepts (Atom a Opt # r) (u @ v)"
  unfolding accepts_opt by blast

lemma accepts_plusE:
  assumes "accepts (Atom a Plus # r) w"
  obtains u v where "w = u @ v" and "u \<noteq> []" and "list_all (atom_ok a) u" and "accepts r v"
  using assms unfolding accepts_plus by blast

lemma accepts_plusI:
  "u \<noteq> [] \<Longrightarrow> list_all (atom_ok a) u \<Longrightarrow> accepts r v \<Longrightarrow> accepts (Atom a Plus # r) (u @ v)"
  unfolding accepts_plus by blast

lemma accepts_oneE:
  assumes "accepts (Atom a One # r) w"
  obtains c v where "w = c # v" and "atom_ok a c" and "accepts r v"
  using assms unfolding accepts_one by blast

lemma accepts_oneI:
  "atom_ok a c \<Longrightarrow> accepts r v \<Longrightarrow> accepts (Atom a One # r) (c # v)"
  by simp

lemma list_all_digit: "list_all (atom_ok Digit) ds = list_all isdigit ds"
  by (induction ds) simp_all

lemma id_body_unfold:
  "id_body = lits ''OCHMO-'' @ (Atom (Lit CHR ''M'') Opt # lits ''TB-'' @ [Atom Digit Plus])"
  by (simp add: id_body_def)

lemma accepts_id_body_iff: "accepts id_body w \<longleftrightarrow> id_token w"
proof
  have l1: "map lower ''OCHMO-'' = ''ochmo-''" and l2: "map lower ''TB-'' = ''tb-''"
    by (simp_all add: case_defs)
  {
    assume "accepts id_body w"
    then have "accepts (lits ''OCHMO-'' @ (Atom (Lit CHR ''M'') Opt # lits ''TB-'' @ [Atom Digit Plus])) w"
      by (simp only: id_body_unfold)
    then obtain p v where w: "w = p @ v" and p: "map lower p = map lower ''OCHMO-''"
      and v: "accepts (Atom (Lit CHR ''M'') Opt # lits ''TB-'' @ [Atom Digit Plus]) v"
      by (rule accepts_litsE)
    from v obtain m v' where v': "v = m @ v'"
      and m: "length m \<le> 1" "list_all (atom_ok (Lit CHR ''M'')) m"
      and t: "accepts (lits ''TB-'' @ [Atom Digit Plus]) v'"
      by (rule accepts_optE)
    from t obtain t v'' where v'': "v' = t @ v''" and t': "map lower t = map lower ''TB-''"
      and d: "accepts [Atom Digit Plus] v''"
      by (rule accepts_litsE)
    from d obtain ds x where x: "v'' = ds @ x" "ds \<noteq> []" "list_all (atom_ok Digit) ds" "accepts [] x"
      by (rule accepts_plusE)
    then have ds: "v'' = ds" "ds \<noteq> []" "list_all isdigit ds"
      by (simp_all add: list_all_digit)
    from m have "length m \<le> 1 \<and> list_all (atom_ok (Lit CHR ''M'')) m" by (intro conjI)
    then have m': "m = [] \<or> map lower m = ''m''" by (simp only: opt_letter_m)
    have w': "w = p @ m @ t @ ds" using w v' v'' ds by simp
    from p have p': "map lower p = ''ochmo-''" by (simp only: l1)
    from t' have t'': "map lower t = ''tb-''" by (simp only: l2)
    show "id_token w"
      unfolding id_token_def
      by (rule exI [of _ p], rule exI [of _ m], rule exI [of _ t], rule exI [of _ ds])
        (intro conjI w' p' m' t'' ds(2) ds(3))
  }
  {
    assume "id_token w"
    then obtain p m t ds where w: "w = p @ m @ t @ ds" and p: "map lower p = ''ochmo-''"
      and m: "m = [] \<or> map lower m = ''m''" and t: "map lower t = ''tb-''"
      and ds: "ds \<noteq> []" "list_all isdigit ds"
      unfolding id_token_def by (elim exE conjE)
    from ds(2) have "list_all (atom_ok Digit) ds" by (simp only: list_all_digit)
    with ds(1) have "accepts [Atom Digit Plus] (ds @ [])"
      by (rule accepts_plusI) simp
    then have d: "accepts [Atom Digit Plus] ds" by simp
    from t have "map lower t = map lower ''TB-''" by (simp only: l2)
    then have tb: "accepts (lits ''TB-'' @ [Atom Digit Plus]) (t @ ds)"
      using d by (rule accepts_litsI)
    from m have "length m \<le> 1 \<and> list_all (atom_ok (Lit CHR ''M'')) m"
      by (simp only: opt_letter_m)
    then have "accepts (Atom (Lit CHR ''M'') Opt # lits ''TB-'' @ [Atom Digit Plus]) (m @ t @ ds)"
      using tb by (intro accepts_optI) simp_all
    moreover from p have "map lower p = map lower ''OCHMO-''" by (simp only: l1)
    ultimately have "accepts (lits ''OCHMO-'' @ (Atom (Lit CHR ''M'') Opt # lits ''TB-'' @ [Atom Digit Plus])) (p @ m @ t @ ds)"
      by (intro accepts_litsI)
    then show "accepts id_body w" by (simp only: id_body_unfold w)
  }
qed

lemma contains_id_rx: "contains id_rx s \<longleftrightarrow> has_id_token s"
  by (simp add: contains_def has_id_token_def accepts_id_rx_body accepts_id_body_iff)

lemma id_rx_ends_with_digits:
  "id_rx = (GroupOpen # lits ''OCHMO-'' @ [Atom (Lit CHR ''M'') Opt] @ lits ''TB-'')
           @ [Atom Digit Plus, GroupClose]"
  by (simp add: id_rx_def)

lemma re_search_id_rx_rest:
  assumes "re_search id_rx s = Some m"
  shows "case m_rest m of [] \<Rightarrow> True | c # _ \<Rightarrow> \<not> isdigit c"
proof -
  from re_search_Some_drop [OF assms] obtain k res
    where r: "rx_match id_rx (drop k s) (drop k s, drop k s) = Some res"
    and m: "m = mk_match (drop k s) res" by blast
  obtain rest go gc where res: "res = (rest, go, gc)" by (cases res)
  from r res have "rx_match ((GroupOpen # lits ''OCHMO-'' @ [Atom (Lit CHR ''M'') Opt] @ lits ''TB-'')
           @ [Atom Digit Plus, GroupClose]) (drop k s) (drop k s, drop k s) = Some (rest, go, gc)"
    by (simp only: id_rx_ends_with_digits)
  from rx_match_plus_end [OF this] have "case rest of [] \<Rightarrow> True | c # _ \<Rightarrow> \<not> isdigit c"
    by (cases rest) simp_all
  with m res show ?thesis by (simp add: mk_match_def)
qed

text \<open>
  C5.  When the URL of a record holds an identifier token, \<open>parse_ochmo_id\<close> sets the
  identifier to the upper-cased token that starts first, read to the end of its digits;
  when the URL holds none, it sets the identifier to \<open>None\<close>.  It returns a record for
  every URL.
\<close>

theorem parse_ochmo_id_first_token:
  "(\<not> has_id_token (url r) \<longrightarrow> ochmo_id (parse_ochmo_id r) = None)
   \<and> (has_id_token (url r) \<longrightarrow>
        (\<exists>pre w suf. url r = pre @ w @ suf \<and> id_token w
           \<and> ochmo_id (parse_ochmo_id r) = Some (str_upper w)
           \<and> (\<forall>pre' w' suf'. url r = pre' @ w' @ suf' \<and> id_token w' \<longrightarrow> length pre \<le> length pre')
           \<and> (case suf of [] \<Rightarrow> True | c # _ \<Rightarrow> \<not> isdigit c)))"
proof (cases "re_search id_rx (url r)")
  case None
  then have "\<not> has_id_token (url r)"
    by (simp add: re_search_None_iff contains_id_rx)
  with None show ?thesis by (simp add: ochmo_id_parse_ochmo_id)
next
  case (Some m)
  from re_search_Some_first [OF Some] obtain pre
    where split: "url r = pre @ m_group0 m @ m_rest m"
    and acc: "accepts id_rx (m_group0 m)"
    and first: "\<forall>pre' w' suf'. url r = pre' @ w' @ suf' \<and> accepts id_rx w' \<longrightarrow> length pre \<le> length pre'"
    by blast
  from acc have tok: "id_token (m_group0 m)"
    by (simp add: accepts_id_rx_body accepts_id_body_iff)
  from first have first': "\<forall>pre' w' suf'. url r = pre' @ w' @ suf' \<and> id_token w' \<longrightarrow> length pre \<le> length pre'"
    by (simp add: accepts_id_rx_body accepts_id_body_iff)
  have val: "ochmo_id (parse_ochmo_id r) = Some (str_upper (m_group0 m))"
    using Some re_search_id_rx_group(1) [OF Some] by (simp add: ochmo_id_parse_ochmo_id)
  have "\<exists>pre w suf. url r = pre @ w @ suf \<and> id_token w
           \<and> ochmo_id (parse_ochmo_id r) = Some (str_upper w)
           \<and> (\<forall>pre' w' suf'. url r = pre' @ w' @ suf' \<and> id_token w' \<longrightarrow> length pre \<le> length pre')
           \<and> (case suf of [] \<Rightarrow> True | c # _ \<Rightarrow> \<not> isdigit c)"
    using split tok val first' re_search_id_rx_rest [OF Some] by blast
  moreover have "has_id_token (url r)"
    unfolding has_id_token_def using split tok by blast
  ultimately show ?thesis by blast
qed

theorem parse_ochmo_id_first_token_witness:
  "has_id_token ''https://x/ochmo-mtb-123-crew-health-risk.pdf?v=1''
   \<and> ochmo_id (parse_ochmo_id (PdfReport_init ''https://x/ochmo-mtb-123-crew-health-risk.pdf?v=1''))
       = Some (ustr ''OCHMO-MTB-123'')
   \<and> \<not> has_id_token ''https://h/about.html''
   \<and> ochmo_id (parse_ochmo_id (PdfReport_init ''https://h/about.html'')) = None"
proof -
  have a: "ochmo_id (parse_ochmo_id (PdfReport_init ''https://x/ochmo-mtb-123-crew-health-risk.pdf?v=1''))
       = Some (ustr ''OCHMO-MTB-123'')"
    by code_simp
  have b: "ochmo_id (parse_ochmo_id (PdfReport_init ''https://h/about.html'')) = None"
    by code_simp
  have u: "url (PdfReport_init u) = u" for u by (simp add: PdfReport_init_def)
  from parse_ochmo_id_first_token [of "PdfReport_init ''https://x/ochmo-mtb-123-crew-health-risk.pdf?v=1''"] a
  have c: "has_id_token ''https://x/ochmo-mtb-123-crew-health-risk.pdf?v=1''"
    by (auto simp: u)
  from parse_ochmo_id_first_token [of "PdfReport_init ''https://h/about.html''"] b
  have d: "\<not> has_id_token ''https://h/about.html''"
    by (auto simp: u)
  from a b c d show ?thesis by (intro conjI)
qed

section \<open>Parsing a record again\<close>

text \<open>
  C3.  \<open>parse\<close> is not idempotent on a record.  The second call reads the cached bytes,
  finds the same matches and appends them to the two lists a second time: on the first
  document of the listing above each list holds its entry twice, while the identifier
  and the title stay as they were.
\<close>

theorem parse_twice_appends_twice:
  "technical_requirements_docs
     (parse demo_env (PdfReport_init ''https://h/briefs/ochmo-tb-7-noise.pdf?v=1''))
     = [''NASA-STD-3001 Volume 2, Rev A'']
   \<and> technical_requirements_docs
     (parse demo_env (parse demo_env (PdfReport_init ''https://h/briefs/ochmo-tb-7-noise.pdf?v=1'')))
     = [''NASA-STD-3001 Volume 2, Rev A'', ''NASA-STD-3001 Volume 2, Rev A'']
   \<and> technical_requirements
     (parse demo_env (PdfReport_init ''https://h/briefs/ochmo-tb-7-noise.pdf?v=1''))
     = [''V2 104'']
   \<and> technical_requirements
     (parse demo_env (parse demo_env (PdfReport_init ''https://h/briefs/ochmo-tb-7-noise.pdf?v=1'')))
     = [''V2 104'', ''V2 104'']
   \<and> parse demo_env (parse demo_env (PdfReport_init ''https://h/briefs/ochmo-tb-7-noise.pdf?v=1''))
     \<noteq> parse demo_env (PdfReport_init ''https://h/briefs/ochmo-tb-7-noise.pdf?v=1'')"
proof -
  have again: "parse demo_env
     \<lparr> url = ''https://h/briefs/ochmo-tb-7-noise.pdf?v=1'', ochmo_id = Some (ustr ''OCHMO-TB-7''),
       title = Some (ustr ''Noise''), technical_requirements_docs = [''NASA-STD-3001 Volume 2, Rev A''],
       technical_requirements = [''V2 104''], pdf_bytes = Some [2] \<rparr> =
     \<lparr> url = ''https://h/briefs/ochmo-tb-7-noise.pdf?v=1'', ochmo_id = Some (ustr ''OCHMO-TB-7''),
       title = Some (ustr ''Noise''),
       technical_requirements_docs =
         [''NASA-STD-3001 Volume 2, Rev A'', ''NASA-STD-3001 Volume 2, Rev A''],
       technical_requirements = [''V2 104'', ''V2 104''], pdf_bytes = Some [2] \<rparr>"
    by code_simp
  show ?thesis by (simp add: demo_first again)
qed

section \<open>The scans of the first page\<close>

lemma accepts_lits_first:
  assumes "accepts (lits (x # p) @ r) w"
  shows "\<exists>c v. w = c # v \<and> lower c = lower x"
proof -
  from assms obtain u v where "w = u @ v" "map lower u = map lower (x # p)"
    by (rule accepts_litsE)
  then show ?thesis by (cases u) auto
qed

lemma isspace_not_n: "isspace c \<Longrightarrow> lower c \<noteq> CHR ''n''"
  by (auto simp: isspace_def case_defs)

lemma isspace_not_bracket: "isspace c \<Longrightarrow> lower c \<noteq> CHR ''[''"
  by (auto simp: isspace_def case_defs)

lemma accepts_std_rx_first: "accepts std_rx w \<Longrightarrow> \<exists>c v. w = c # v \<and> lower c = CHR ''n''"
proof -
  assume "accepts std_rx w"
  then have "accepts (lits ''NASA'' @ ([Atom Space Opt] @ lits ''-'' @ [Atom Space Opt]
            @ lits ''STD'' @ [Atom Space Opt] @ lits ''-''
            @ [Atom Space Opt, Atom Digit Plus, Atom Space One] @ lits ''Volume''
            @ [Atom Space One, Atom Digit One] @ lits '','' @ [Atom Space Opt]
            @ lits ''Rev'' @ [Atom Space One, Atom Word One, GroupClose])) w"
    by (simp add: std_rx_def)
  from accepts_lits_first [OF this] show ?thesis by (simp add: case_defs)
qed

lemma accepts_req_rx_first: "accepts req_rx w \<Longrightarrow> \<exists>c v. w = c # v \<and> lower c = CHR ''[''"
proof -
  assume "accepts req_rx w"
  then have "accepts (lits ''['' @ ([GroupOpen] @ lits ''V''
            @ [Atom Digit One, Atom Space Star, Atom Digit Plus, GroupClose] @ lits '']'')) w"
    by (simp only: req_rx_def)
  from accepts_lits_first [OF this] show ?thesis by (simp add: case_defs)
qed

lemma whitespace_no_match:
  assumes "list_all isspace page_text"
  shows "\<not> contains std_rx page_text" and "\<not> contains req_rx page_text"
proof -
  show "\<not> contains std_rx page_text"
  proof
    assume "contains std_rx page_text"
    then obtain pre w suf where t: "page_text = pre @ w @ suf" and "accepts std_rx w"
      unfolding contains_def by blast
    then obtain c v where "w = c # v" "lower c = CHR ''n''"
      using accepts_std_rx_first by blast
    with t assms show False using isspace_not_n [of c] by simp
  qed
  show "\<not> contains req_rx page_text"
  proof
    assume "contains req_rx page_text"
    then obtain pre w suf where t: "page_text = pre @ w @ suf" and "accepts req_rx w"
      unfolding contains_def by blast
    then obtain c v where "w = c # v" "lower c = CHR ''[''"
      using accepts_req_rx_first by blast
    with t assms show False using isspace_not_bracket [of c] by simp
  qed
qed

lemma std_rx_match_nonempty: "m \<in> set (re_finditer std_rx s) \<Longrightarrow> m_group0 m \<noteq> []"
  using re_finditer_accepts [of m std_rx s] accepts_std_rx_first [of "m_group0 m"] by auto

lemma req_rx_match_nonempty: "m \<in> set (re_finditer req_rx s) \<Longrightarrow> m_group0 m \<noteq> []"
  using re_finditer_accepts [of m req_rx s] accepts_req_rx_first [of "m_group0 m"] by auto

lemma no_match_no_finds: "\<not> contains rx page_text \<Longrightarrow> re_finditer rx page_text = []"
  by (simp add: re_finditer_Nil_iff re_search_None_iff)

text \<open>
  C7.  On a record whose two lists are still empty, the scans leave in each list as many
  entries as the pattern has successive matches in the page_text.  A list stays empty when
  no part of the page_text is accepted by its pattern, and both stay empty on an empty page_text
  and on a page_text of white space only.
\<close>

theorem scan_counts:
  "technical_requirements_docs r = [] \<and> technical_requirements r = [] \<longrightarrow>
     length (technical_requirements_docs (parse_technical_requirements r page_text))
       = length (re_finditer std_rx page_text)
     \<and> length (technical_requirements (parse_technical_requirements r page_text))
       = length (re_finditer req_rx page_text)
     \<and> (\<not> contains std_rx page_text \<longrightarrow>
          technical_requirements_docs (parse_technical_requirements r page_text) = [])
     \<and> (\<not> contains req_rx page_text \<longrightarrow>
          technical_requirements (parse_technical_requirements r page_text) = [])
     \<and> (list_all isspace page_text \<longrightarrow>
          technical_requirements_docs (parse_technical_requirements r page_text) = []
          \<and> technical_requirements (parse_technical_requirements r page_text) = [])"
  using whitespace_no_match [of page_text]
  by (auto simp: no_match_no_finds)

theorem scan_counts_witness:
  "technical_requirements_docs (PdfReport_init ''u'') = []
   \<and> technical_requirements (PdfReport_init ''u'') = []
   \<and> length (re_finditer std_rx ''...per NASA-STD-3001 Volume 2, Rev A and [V2 104]...'') = 1
   \<and> length (technical_requirements_docs (parse_technical_requirements (PdfReport_init ''u'')
        ''...per NASA-STD-3001 Volume 2, Rev A and [V2 104]...'')) = 1
   \<and> length (technical_requirements (parse_technical_requirements (PdfReport_init ''u'')
        ''...per NASA-STD-3001 Volume 2, Rev A and [V2 104]...'')) = 1
   \<and> list_all isspace '' ''
   \<and> technical_requirements_docs (parse_technical_requirements (PdfReport_init ''u'') '' '') = []
   \<and> technical_requirements (parse_technical_requirements (PdfReport_init ''u'') '' '') = []
   \<and> technical_requirements_docs (parse_technical_requirements (PdfReport_init ''u'') '''') = []
   \<and> technical_requirements (parse_technical_requirements (PdfReport_init ''u'') '''') = []"
proof -
  have e: "technical_requirements_docs (PdfReport_init ''u'') = []
      \<and> technical_requirements (PdfReport_init ''u'') = []"
    by (simp add: PdfReport_init_def)
  have n1: "length (re_finditer std_rx ''...per NASA-STD-3001 Volume 2, Rev A and [V2 104]...'') = 1"
    by code_simp
  have n2: "length (re_finditer req_rx ''...per NASA-STD-3001 Volume 2, Rev A and [V2 104]...'') = 1"
    by code_simp
  have sp: "list_all isspace '' ''" by (simp add: isspace_def)
  have em: "list_all isspace ''''" by simp
  from scan_counts [of "PdfReport_init ''u''" "''...per NASA-STD-3001 Volume 2, Rev A and [V2 104]...''"]
    e n1 n2
  have a: "length (technical_requirements_docs (parse_technical_requirements (PdfReport_init ''u'')
        ''...per NASA-STD-3001 Volume 2, Rev A and [V2 104]...'')) = 1"
    and b: "length (technical_requirements (parse_technical_requirements (PdfReport_init ''u'')
        ''...per NASA-STD-3001 Volume 2, Rev A and [V2 104]...'')) = 1"
    by simp_all
  from scan_counts [of "PdfReport_init ''u''" "'' ''"] e sp
  have c: "technical_requirements_docs (parse_technical_requirements (PdfReport_init ''u'') '' '') = []"
    and d: "technical_requirements (parse_technical_requirements (PdfReport_init ''u'') '' '') = []"
    by blast+
  from scan_counts [of "PdfReport_init ''u''" "''''"] e em
  have f: "technical_requirements_docs (parse_technical_requirements (PdfReport_init ''u'') '''') = []"
    and g: "technical_requirements (parse_technical_requirements (PdfReport_init ''u'') '''') = []"
    by blast+
  from e n1 a b sp c d f g show ?thesis by (intro conjI) simp_all
qed

section \<open>The links of the listing page\<close>

lemma link_rx_head: "link_rx = link_head @ ([Atom Any Star] @ lits ''.pdf?'')"
  by (simp add: link_rx_def link_head_def)

lemma opt_letter_m_lower:
  "length m \<le> 1 \<and> list_all (atom_ok (Lit CHR ''m'')) m \<longleftrightarrow> m = [] \<or> map lower m = ''m''"
proof (cases m)
  case Nil
  then show ?thesis by simp
next
  case (Cons c cs)
  have "lower CHR ''m'' = CHR ''m''" by (simp add: case_defs)
  with Cons show ?thesis by (cases cs) auto
qed

lemma accepts_link_head: "accepts link_head w \<Longrightarrow> id_token w"
proof -
  have l1: "map lower ''ochmo-'' = ''ochmo-''" and l2: "map lower ''tb-'' = ''tb-''"
    by (simp_all add: case_defs)
  assume "accepts link_head w"
  then have "accepts (lits ''ochmo-'' @ (Atom (Lit CHR ''m'') Opt # lits ''tb-'' @ [Atom Digit Plus])) w"
    by (simp only: link_head_def)
  then obtain p v where w: "w = p @ v" and p: "map lower p = map lower ''ochmo-''"
    and v: "accepts (Atom (Lit CHR ''m'') Opt # lits ''tb-'' @ [Atom Digit Plus]) v"
    by (rule accepts_litsE)
  from v obtain m v' where v': "v = m @ v'"
    and m: "length m \<le> 1" "list_all (atom_ok (Lit CHR ''m'')) m"
    and t: "accepts (lits ''tb-'' @ [Atom Digit Plus]) v'"
    by (rule accepts_optE)
  from t obtain t v'' where v'': "v' = t @ v''" and t': "map lower t = map lower ''tb-''"
    and d: "accepts [Atom Digit Plus] v''"
    by (rule accepts_litsE)
  from d obtain ds x where x: "v'' = ds @ x" "ds \<noteq> []" "list_all (atom_ok Digit) ds" "accepts [] x"
    by (rule accepts_plusE)
  then have ds: "v'' = ds" "ds \<noteq> []" "list_all isdigit ds"
    by (simp_all add: list_all_digit)
  from m have "length m \<le> 1 \<and> list_all (atom_ok (Lit CHR ''m'')) m" by (intro conjI)
  then have m': "m = [] \<or> map lower m = ''m''" by (simp only: opt_letter_m_lower)
  have w': "w = p @ m @ t @ ds" using w v' v'' ds by simp
  from p have p': "map lower p = ''ochmo-''" by (simp only: l1)
  from t' have t'': "map lower t = ''tb-''" by (simp only: l2)
  show "id_token w"
    unfolding id_token_def
    by (rule exI [of _ p], rule exI [of _ m], rule exI [of _ t], rule exI [of _ ds])
      (intro conjI w' p' m' t'' ds(2) ds(3))
qed

lemma link_has_id_token:
  assumes "re_search link_rx href \<noteq> None"
  shows "has_id_token (pre @ href @ suf)"
proof -
  from assms have "contains link_rx href" by (simp add: re_search_None_iff)
  then obtain p0 w s0 where href: "href = p0 @ w @ s0" and "accepts link_rx w"
    unfolding contains_def by blast
  then have "accepts (link_head @ ([Atom Any Star] @ lits ''.pdf?'')) w"
    by (simp only: link_rx_head)
  from accepts_append_D [OF this] obtain u v where w: "w = u @ v" and "accepts link_head u"
    by blast
  then have tok: "id_token u" by (simp add: accepts_link_head)
  have "pre @ href @ suf = (pre @ p0) @ u @ (v @ s0 @ suf)" using href w by simp
  with tok show ?thesis unfolding has_id_token_def by blast
qed

lemma ochmo_id_None_iff: "ochmo_id (parse_ochmo_id r) = None \<longleftrightarrow> \<not> has_id_token (url r)"
proof -
  have "ochmo_id (parse_ochmo_id r) = None \<longleftrightarrow> re_search id_rx (url r) = None"
    by (simp add: ochmo_id_parse_ochmo_id split: option.splits)
  then show ?thesis by (simp add: re_search_None_iff contains_id_rx)
qed

lemma parse_init_id_None_iff:
  "ochmo_id (parse e (PdfReport_init u)) = None \<longleftrightarrow> \<not> has_id_token u"
  by (simp add: parse_ochmo_id_eq ochmo_id_None_iff PdfReport_init_def)

lemma map_url_kept:
  "map url (filter (\<lambda>r. ochmo_id r \<noteq> None) (map (\<lambda>u. parse e (PdfReport_init u)) us)) =
     filter has_id_token us"
  by (induction us) (simp_all add: url_parse_init parse_init_id_None_iff del: not_None_eq)

text \<open>
  C9, as stated, fails: the link is accepted by the discovery pattern, the URL it
  resolves to holds no identifier, and \<open>scrape_reports\<close> drops the only discovered URL.
\<close>

theorem discovered_url_dropped:
  "re_search link_rx ''ochmo-tb-1/../a.pdf?'' \<noteq> None
   \<and> list_pdf_links dots_env dots_scraper = [''https://h/d/a.pdf'']
   \<and> ochmo_id (parse dots_env (PdfReport_init ''https://h/d/a.pdf'')) = None
   \<and> scrape_reports dots_env dots_scraper None = []"
  by code_simp

text \<open>
  C9, amended.  A link that the discovery pattern accepts holds an identifier token,
  and so does every URL that holds the link as a part.  The record of a URL has an
  identifier exactly when the URL holds an identifier token, so the URLs of the records
  that \<open>scrape_reports\<close> returns are the discovered URLs, truncated, that hold one.
  When the listing page is retrieved, the discovered URLs are the resolutions of its
  accepted links, in order, and \<open>scrape_reports\<close> drops none of them exactly when
  the resolution of every accepted link of the page holds an identifier token.
\<close>

theorem accepted_link_has_identifier:
  "(re_search link_rx href \<noteq> None \<longrightarrow>
      (\<forall>pre suf. ochmo_id (parse e (PdfReport_init (pre @ href @ suf))) \<noteq> None))
   \<and> (ochmo_id (parse e (PdfReport_init u)) \<noteq> None \<longleftrightarrow> has_id_token u)
   \<and> map url (scrape_reports e self limit) =
       filter has_id_token (slice_to (list_pdf_links e self) limit)
   \<and> (requests_get e (base_url self) = Inr content \<longrightarrow>
        list_pdf_links e self =
          map (urljoin e (base_url self))
            (filter (\<lambda>href. re_search link_rx href \<noteq> None) (find_all_a_href e content))
        \<and> ((\<forall>href \<in> set (find_all_a_href e content).
               re_search link_rx href \<noteq> None \<longrightarrow> has_id_token (urljoin e (base_url self) href))
             \<longleftrightarrow> map url (scrape_reports e self None) = list_pdf_links e self))"
proof (intro conjI impI allI)
  fix pre suf
  assume "re_search link_rx href \<noteq> None"
  then show "ochmo_id (parse e (PdfReport_init (pre @ href @ suf))) \<noteq> None"
    by (simp add: parse_init_id_None_iff link_has_id_token)
next
  show "ochmo_id (parse e (PdfReport_init u)) \<noteq> None \<longleftrightarrow> has_id_token u"
    by (simp add: parse_init_id_None_iff)
next
  show kept: "map url (scrape_reports e self limit) =
       filter has_id_token (slice_to (list_pdf_links e self) limit)" for limit
    by (simp add: scrape_reports_def scrape_loop_eq map_url_kept del: not_None_eq)
  assume page: "requests_get e (base_url self) = Inr content"
  then show links: "list_pdf_links e self =
          map (urljoin e (base_url self))
            (filter (\<lambda>href. re_search link_rx href \<noteq> None) (find_all_a_href e content))"
    by (simp add: list_pdf_links_def links_loop_eq)
  have "map url (scrape_reports e self None) = list_pdf_links e self
      \<longleftrightarrow> (\<forall>u \<in> set (list_pdf_links e self). has_id_token u)"
    by (simp add: kept [of None] slice_to_def filter_id_conv)
  also have "\<dots> \<longleftrightarrow> (\<forall>href \<in> set (find_all_a_href e content).
               re_search link_rx href \<noteq> None \<longrightarrow> has_id_token (urljoin e (base_url self) href))"
    by (simp only: links) auto
  finally show "(\<forall>href \<in> set (find_all_a_href e content).
               re_search link_rx href \<noteq> None \<longrightarrow> has_id_token (urljoin e (base_url self) href))
             \<longleftrightarrow> map url (scrape_reports e self None) = list_pdf_links e self"
    by (rule sym)
qed

theorem accepted_link_has_identifier_witness:
  "re_search link_rx ''ochmo-tb-7-noise.pdf?v=1'' \<noteq> None
   \<and> requests_get demo_env (base_url demo_scraper) = Inr [1]
   \<and> find_all_a_href demo_env [1] =
       [''ochmo-tb-7-noise.pdf?v=1'', ''about.html'', ''ochmo-mtb-12-co2.pdf?v=2'']
   \<and> re_search link_rx ''about.html'' = None
   \<and> has_id_token (urljoin demo_env (base_url demo_scraper) ''ochmo-tb-7-noise.pdf?v=1'')
   \<and> has_id_token (urljoin demo_env (base_url demo_scraper) ''ochmo-mtb-12-co2.pdf?v=2'')
   \<and> ochmo_id (parse demo_env (PdfReport_init ''https://h/briefs/ochmo-tb-7-noise.pdf?v=1''))
        \<noteq> None
   \<and> list_pdf_links demo_env demo_scraper =
       [''https://h/briefs/ochmo-tb-7-noise.pdf?v=1'', ''https://h/briefs/ochmo-mtb-12-co2.pdf?v=2'']
   \<and> map url (scrape_reports demo_env demo_scraper None) = list_pdf_links demo_env demo_scraper"
proof -
  note inst = accepted_link_has_identifier
  have acc: "re_search link_rx ''ochmo-tb-7-noise.pdf?v=1'' \<noteq> None" by code_simp
  have page: "requests_get demo_env (base_url demo_scraper) = Inr [1]"
    by (simp add: demo_env_def demo_scraper_def)
  have hrefs: "find_all_a_href demo_env [1] =
       [''ochmo-tb-7-noise.pdf?v=1'', ''about.html'', ''ochmo-mtb-12-co2.pdf?v=2'']"
    by (simp add: demo_env_def)
  have other: "re_search link_rx ''about.html'' = None" by code_simp
  have j1: "urljoin demo_env (base_url demo_scraper) ''ochmo-tb-7-noise.pdf?v=1'' =
      ''https://h/briefs/ochmo-tb-7-noise.pdf?v=1''"
    and j2: "urljoin demo_env (base_url demo_scraper) ''ochmo-mtb-12-co2.pdf?v=2'' =
      ''https://h/briefs/ochmo-mtb-12-co2.pdf?v=2''"
    by (simp_all add: demo_env_def demo_scraper_def)
  have i1: "ochmo_id (parse demo_env (PdfReport_init ''https://h/briefs/ochmo-tb-7-noise.pdf?v=1'')) \<noteq> None"
    by (simp add: demo_first)
  from inst [of _ demo_env "''https://h/briefs/ochmo-tb-7-noise.pdf?v=1''", THEN conjunct2, THEN conjunct1]
  have "ochmo_id (parse demo_env (PdfReport_init ''https://h/briefs/ochmo-tb-7-noise.pdf?v=1'')) \<noteq> None
      \<longleftrightarrow> has_id_token ''https://h/briefs/ochmo-tb-7-noise.pdf?v=1''"
    .
  from this i1 have "has_id_token ''https://h/briefs/ochmo-tb-7-noise.pdf?v=1''"
    by (rule iffD1)
  then have t1: "has_id_token (urljoin demo_env (base_url demo_scraper) ''ochmo-tb-7-noise.pdf?v=1'')"
    by (simp only: j1)
  have i2: "ochmo_id (parse demo_env (PdfReport_init ''https://h/briefs/ochmo-mtb-12-co2.pdf?v=2'')) \<noteq> None"
    by (simp add: demo_second)
  from inst [of _ demo_env "''https://h/briefs/ochmo-mtb-12-co2.pdf?v=2''", THEN conjunct2, THEN conjunct1]
  have "ochmo_id (parse demo_env (PdfReport_init ''https://h/briefs/ochmo-mtb-12-co2.pdf?v=2'')) \<noteq> None
      \<longleftrightarrow> has_id_token ''https://h/briefs/ochmo-mtb-12-co2.pdf?v=2''"
    .
  from this i2 have "has_id_token ''https://h/briefs/ochmo-mtb-12-co2.pdf?v=2''"
    by (rule iffD1)
  then have t2: "has_id_token (urljoin demo_env (base_url demo_scraper) ''ochmo-mtb-12-co2.pdf?v=2'')"
    by (simp only: j2)
  from inst [of "''ochmo-tb-7-noise.pdf?v=1''" demo_env] acc
  have "ochmo_id (parse demo_env (PdfReport_init (''https://h/briefs/'' @ ''ochmo-tb-7-noise.pdf?v=1'' @ []))) \<noteq> None"
    by blast
  then have a: "ochmo_id (parse demo_env (PdfReport_init ''https://h/briefs/ochmo-tb-7-noise.pdf?v=1'')) \<noteq> None"
    by simp
  have every: "\<forall>href \<in> set (find_all_a_href demo_env [1]).
      re_search link_rx href \<noteq> None \<longrightarrow> has_id_token (urljoin demo_env (base_url demo_scraper) href)"
    using t1 t2 other by (simp add: hrefs)
  from inst [of _ demo_env _ demo_scraper _ "[1]"] page
  have l: "list_pdf_links demo_env demo_scraper =
          map (urljoin demo_env (base_url demo_scraper))
            (filter (\<lambda>href. re_search link_rx href \<noteq> None) (find_all_a_href demo_env [1]))"
    and d: "(\<forall>href \<in> set (find_all_a_href demo_env [1]).
               re_search link_rx href \<noteq> None \<longrightarrow> has_id_token (urljoin demo_env (base_url demo_scraper) href))
             \<longleftrightarrow> map url (scrape_reports demo_env demo_scraper None) = list_pdf_links demo_env demo_scraper"
    by blast+
  from d every have b: "map url (scrape_reports demo_env demo_scraper None) = list_pdf_links demo_env demo_scraper"
    by (rule iffD1)
  have l': "list_pdf_links demo_env demo_scraper =
       [''https://h/briefs/ochmo-tb-7-noise.pdf?v=1'', ''https://h/briefs/ochmo-mtb-12-co2.pdf?v=2'']"
    by (rule demo_links)
  from acc page hrefs other t1 t2 a l' b show ?thesis by (intro conjI)
qed

section \<open>The citation of a standard\<close>

lemma std_rx_body: "std_rx = GroupOpen # std_body @ [GroupClose]"
  by (simp add: std_rx_def std_body_def)

lemma std_body_no_groups: "GroupOpen \<notin> set std_body" "GroupClose \<notin> set std_body"
  by (simp_all add: std_body_def lits_no_groups)

lemma accepts_std_rx_body: "accepts std_rx w = accepts std_body w"
proof -
  have "accepts (std_body @ [GroupClose]) w = accepts std_body w"
    by (simp add: accepts_append)
  then show ?thesis by (simp add: std_rx_body)
qed

lemma lower_hyphen: "map lower h = map lower ''-'' \<Longrightarrow> h = ''-''"
proof -
  have c: "lower c = CHR ''-'' \<Longrightarrow> c = CHR ''-''" for c
    by (simp add: case_defs split: if_splits)
  assume "map lower h = map lower ''-''"
  then have "map lower h = ''-''" by (simp add: case_defs)
  then show ?thesis using c by (cases h) auto
qed

lemma lower_comma: "map lower h = map lower '','' \<Longrightarrow> h = '',''"
proof -
  have c: "lower c = CHR '','' \<Longrightarrow> c = CHR '',''" for c
    by (simp add: case_defs split: if_splits)
  assume "map lower h = map lower '',''"
  then have "map lower h = '',''" by (simp add: case_defs)
  then show ?thesis using c by (cases h) auto
qed

lemma std_body_nf:
  "std_body = lits ''NASA'' @ (Atom Space Opt # (lits ''-'' @ (Atom Space Opt # (lits ''STD'' @ (Atom Space Opt # (lits ''-'' @ (Atom Space Opt # Atom Digit Plus # Atom Space One # (lits ''Volume'' @ (Atom Space One # Atom Digit One # (lits '','' @ (Atom Space Opt # (lits ''Rev'' @ (Atom Space One # Atom Word One # [])))))))))))))"
  by (simp add: std_body_def)

lemma list_all_space: "list_all (atom_ok Space) s = list_all isspace s"
  by (induction s) simp_all

lemma std_literals:
  "map lower ''NASA'' = ''nasa''"
  "map lower ''Rev'' = ''rev''"
  "map lower ''STD'' = ''std''"
  "map lower ''Volume'' = ''volume''"
  by (simp_all add: case_defs)

lemma accepts_std_body_D:
  assumes "accepts std_body w"
  shows "std_citation w"
proof -
  from assms have a0': "accepts (lits ''NASA'' @ (Atom Space Opt # (lits ''-'' @ (Atom Space Opt # (lits ''STD'' @ (Atom Space Opt # (lits ''-'' @ (Atom Space Opt # Atom Digit Plus # Atom Space One # (lits ''Volume'' @ (Atom Space One # Atom Digit One # (lits '','' @ (Atom Space Opt # (lits ''Rev'' @ (Atom Space One # Atom Word One # [])))))))))))))) w"
    by (simp only: std_body_nf)
  from a0' obtain n w1 where e0: "w = n @ w1" and p0: "map lower n = map lower ''NASA''"
    and a1: "accepts (Atom Space Opt # (lits ''-'' @ (Atom Space Opt # (lits ''STD'' @ (Atom Space Opt # (lits ''-'' @ (Atom Space Opt # Atom Digit Plus # Atom Space One # (lits ''Volume'' @ (Atom Space One # Atom Digit One # (lits '','' @ (Atom Space Opt # (lits ''Rev'' @ (Atom Space One # Atom Word One # []))))))))))))) w1"
    by (rule accepts_litsE)
  from a1 obtain s1 w2 where e1: "w1 = s1 @ w2" and p1: "length s1 \<le> 1" "list_all (atom_ok Space) s1"
    and a2: "accepts (lits ''-'' @ (Atom Space Opt # (lits ''STD'' @ (Atom Space Opt # (lits ''-'' @ (Atom Space Opt # Atom Digit Plus # Atom Space One # (lits ''Volume'' @ (Atom Space One # Atom Digit One # (lits '','' @ (Atom Space Opt # (lits ''Rev'' @ (Atom Space One # Atom Word One # [])))))))))))) w2"
    by (rule accepts_optE)
  from a2 obtain h1 w3 where e2: "w2 = h1 @ w3" and p2: "map lower h1 = map lower ''-''"
    and a3: "accepts (Atom Space Opt # (lits ''STD'' @ (Atom Space Opt # (lits ''-'' @ (Atom Space Opt # Atom Digit Plus # Atom Space One # (lits ''Volume'' @ (Atom Space One # Atom Digit One # (lits '','' @ (Atom Space Opt # (lits ''Rev'' @ (Atom Space One # Atom Word One # []))))))))))) w3"
    by (rule accepts_litsE)
  from a3 obtain s2 w4 where e3: "w3 = s2 @ w4" and p3: "length s2 \<le> 1" "list_all (atom_ok Space) s2"
    and a4: "accepts (lits ''STD'' @ (Atom Space Opt # (lits ''-'' @ (Atom Space Opt # Atom Digit Plus # Atom Space One # (lits ''Volume'' @ (Atom Space One # Atom Digit One # (lits '','' @ (Atom Space Opt # (lits ''Rev'' @ (Atom Space One # Atom Word One # [])))))))))) w4"
    by (rule accepts_optE)
  from a4 obtain t w5 where e4: "w4 = t @ w5" and p4: "map lower t = map lower ''STD''"
    and a5: "accepts (Atom Space Opt # (lits ''-'' @ (Atom Space Opt # Atom Digit Plus # Atom Space One # (lits ''Volume'' @ (Atom Space One # Atom Digit One # (lits '','' @ (Atom Space Opt # (lits ''Rev'' @ (Atom Space One # Atom Word One # []))))))))) w5"
    by (rule accepts_litsE)
  from a5 obtain s3 w6 where e5: "w5 = s3 @ w6" and p5: "length s3 \<le> 1" "list_all (atom_ok Space) s3"
    and a6: "accepts (lits ''-'' @ (Atom Space Opt # Atom Digit Plus # Atom Space One # (lits ''Volume'' @ (Atom Space One # Atom Digit One # (lits '','' @ (Atom Space Opt # (lits ''Rev'' @ (Atom Space One # Atom Word One # [])))))))) w6"
    by (rule accepts_optE)
  from a6 obtain h2 w7 where e6: "w6 = h2 @ w7" and p6: "map lower h2 = map lower ''-''"
    and a7: "accepts (Atom Space Opt # Atom Digit Plus # Atom Space One # (lits ''Volume'' @ (Atom Space One # Atom Digit One # (lits '','' @ (Atom Space Opt # (lits ''Rev'' @ (Atom Space One # Atom Word One # []))))))) w7"
    by (rule accepts_litsE)
  from a7 obtain s4 w8 where e7: "w7 = s4 @ w8" and p7: "length s4 \<le> 1" "list_all (atom_ok Space) s4"
    and a8: "accepts (Atom Digit Plus # Atom Space One # (lits ''Volume'' @ (Atom Space One # Atom Digit One # (lits '','' @ (Atom Space Opt # (lits ''Rev'' @ (Atom Space One # Atom Word One # []))))))) w8"
    by (rule accepts_optE)
  from a8 obtain ds w9 where e8: "w8 = ds @ w9" and p8: "ds \<noteq> []" "list_all (atom_ok Digit) ds"
    and a9: "accepts (Atom Space One # (lits ''Volume'' @ (Atom Space One # Atom Digit One # (lits '','' @ (Atom Space Opt # (lits ''Rev'' @ (Atom Space One # Atom Word One # []))))))) w9"
    by (rule accepts_plusE)
  from a9 obtain a w10 where e9: "w9 = a # w10" and p9: "atom_ok Space a"
    and a10: "accepts (lits ''Volume'' @ (Atom Space One # Atom Digit One # (lits '','' @ (Atom Space Opt # (lits ''Rev'' @ (Atom Space One # Atom Word One # [])))))) w10"
    by (rule accepts_oneE)
  from a10 obtain v w11 where e10: "w10 = v @ w11" and p10: "map lower v = map lower ''Volume''"
    and a11: "accepts (Atom Space One # Atom Digit One # (lits '','' @ (Atom Space Opt # (lits ''Rev'' @ (Atom Space One # Atom Word One # []))))) w11"
    by (rule accepts_litsE)
  from a11 obtain b w12 where e11: "w11 = b # w12" and p11: "atom_ok Space b"
    and a12: "accepts (Atom Digit One # (lits '','' @ (Atom Space Opt # (lits ''Rev'' @ (Atom Space One # Atom Word One # []))))) w12"
    by (rule accepts_oneE)
  from a12 obtain d w13 where e12: "w12 = d # w13" and p12: "atom_ok Digit d"
    and a13: "accepts (lits '','' @ (Atom Space Opt # (lits ''Rev'' @ (Atom Space One # Atom Word One # [])))) w13"
    by (rule accepts_oneE)
  from a13 obtain k w14 where e13: "w13 = k @ w14" and p13: "map lower k = map lower '',''"
    and a14: "accepts (Atom Space Opt # (lits ''Rev'' @ (Atom Space One # Atom Word One # []))) w14"
    by (rule accepts_litsE)
  from a14 obtain s5 w15 where e14: "w14 = s5 @ w15" and p14: "length s5 \<le> 1" "list_all (atom_ok Space) s5"
    and a15: "accepts (lits ''Rev'' @ (Atom Space One # Atom Word One # [])) w15"
    by (rule accepts_optE)
  from a15 obtain rv w16 where e15: "w15 = rv @ w16" and p15: "map lower rv = map lower ''Rev''"
    and a16: "accepts (Atom Space One # Atom Word One # []) w16"
    by (rule accepts_litsE)
  from a16 obtain c w17 where e16: "w16 = c # w17" and p16: "atom_ok Space c"
    and a17: "accepts (Atom Word One # []) w17"
    by (rule accepts_oneE)
  from a17 obtain x w18 where e17: "w17 = x # w18" and p17: "atom_ok Word x"
    and a18: "accepts ([]) w18"
    by (rule accepts_oneE)
  from a18 have e18: "w18 = []" by simp
  from p2 have h1: "h1 = ''-''" by (rule lower_hyphen)
  from p6 have h2: "h2 = ''-''" by (rule lower_hyphen)
  from p13 have k: "k = '',''" by (rule lower_comma)
  have w: "w = n @ s1 @ ''-'' @ s2 @ t @ s3 @ ''-'' @ s4 @ ds @ [a] @ v @ [b] @ [d] @ '','' @ s5 @ rv @ [c] @ [x]"
    by (simp only: e0 e1 e2 e3 e4 e5 e6 e7 e8 e9 e10 e11 e12 e13 e14 e15 e16 e17 e18 h1 h2 k) simp
  from p0 have q0: "map lower n = ''nasa''" by (simp only: std_literals)
  from p1 have q1: "space01 s1" by (simp add: space01_def list_all_space)
  from p3 have q3: "space01 s2" by (simp add: space01_def list_all_space)
  from p4 have q4: "map lower t = ''std''" by (simp only: std_literals)
  from p5 have q5: "space01 s3" by (simp add: space01_def list_all_space)
  from p7 have q7: "space01 s4" by (simp add: space01_def list_all_space)
  from p8 have q8: "ds \<noteq> []" "list_all isdigit ds" by (simp_all add: list_all_digit)
  from p9 have q9: "isspace a" by simp
  from p10 have q10: "map lower v = ''volume''" by (simp only: std_literals)
  from p11 have q11: "isspace b" by simp
  from p12 have q12: "isdigit d" by simp
  from p14 have q14: "space01 s5" by (simp add: space01_def list_all_space)
  from p15 have q15: "map lower rv = ''rev''" by (simp only: std_literals)
  from p16 have q16: "isspace c" by simp
  from p17 have q17: "isword x" by simp
  show ?thesis
    unfolding std_citation_def
    by (rule exI [of _ n],
        rule exI [of _ s1],
        rule exI [of _ s2],
        rule exI [of _ t],
        rule exI [of _ s3],
        rule exI [of _ s4],
        rule exI [of _ ds],
        rule exI [of _ a],
        rule exI [of _ v],
        rule exI [of _ b],
        rule exI [of _ d],
        rule exI [of _ s5],
        rule exI [of _ rv],
        rule exI [of _ c],
        rule exI [of _ x])
      (intro conjI w q0 q1 q3 q4 q5 q7 q8 q9 q10 q11 q12 q14 q15 q16 q17)
qed

lemma accepts_std_body_I:
  assumes "std_citation w"
  shows "accepts std_body w"
proof -
  from assms obtain n s1 s2 t s3 s4 ds a v b d s5 rv c x where
    w: "w = n @ s1 @ ''-'' @ s2 @ t @ s3 @ ''-'' @ s4 @ ds @ [a] @ v @ [b] @ [d] @ '','' @ s5 @ rv @ [c] @ [x]"
    and n: "map lower n = ''nasa''" and s1: "space01 s1" and s2: "space01 s2"
    and t: "map lower t = ''std''" and s3: "space01 s3" and s4: "space01 s4"
    and ds: "ds \<noteq> []" "list_all isdigit ds" and a: "isspace a"
    and v: "map lower v = ''volume''" and b: "isspace b" and d: "isdigit d"
    and s5: "space01 s5" and rv: "map lower rv = ''rev''" and c: "isspace c" and x: "isword x"
    unfolding std_citation_def by (elim exE conjE)
  have b18: "accepts [] ([]::string)" by simp
  have b17: "accepts (Atom Word One # []) (x # [])"
    using x b18 by (intro accepts_oneI) simp_all
  have b16: "accepts (Atom Space One # Atom Word One # []) (c # x # [])"
    using c b17 by (intro accepts_oneI) simp_all
  have m15: "map lower rv = map lower ''Rev''" using rv by (simp only: std_literals)
  have b15: "accepts (lits ''Rev'' @ (Atom Space One # Atom Word One # [])) (rv @ c # x # [])"
    using m15 b16 by (intro accepts_litsI)
  have b14: "accepts (Atom Space Opt # (lits ''Rev'' @ (Atom Space One # Atom Word One # []))) (s5 @ rv @ c # x # [])"
    using s5 b15 by (intro accepts_optI) (simp_all add: space01_def list_all_space)
  have b13: "accepts (lits '','' @ (Atom Space Opt # (lits ''Rev'' @ (Atom Space One # Atom Word One # [])))) ('','' @ s5 @ rv @ c # x # [])"
    using b14 by (intro accepts_litsI) simp_all
  have b12: "accepts (Atom Digit One # (lits '','' @ (Atom Space Opt # (lits ''Rev'' @ (Atom Space One # Atom Word One # []))))) (d # '','' @ s5 @ rv @ c # x # [])"
    using d b13 by (intro accepts_oneI) simp_all
  have b11: "accepts (Atom Space One # Atom Digit One # (lits '','' @ (Atom Space Opt # (lits ''Rev'' @ (Atom Space One # Atom Word One # []))))) (b # d # '','' @ s5 @ rv @ c # x # [])"
    using b b12 by (intro accepts_oneI) simp_all
  have m10: "map lower v = map lower ''Volume''" using v by (simp only: std_literals)
  have b10: "accepts (lits ''Volume'' @ (Atom Space One # Atom Digit One # (lits '','' @ (Atom Space Opt # (lits ''Rev'' @ (Atom Space One # Atom Word One # [])))))) (v @ b # d # '','' @ s5 @ rv @ c # x # [])"
    using m10 b11 by (intro accepts_litsI)
  have b9: "accepts (Atom Space One # (lits ''Volume'' @ (Atom Space One # Atom Digit One # (lits '','' @ (Atom Space Opt # (lits ''Rev'' @ (Atom Space One # Atom Word One # []))))))) (a # v @ b # d # '','' @ s5 @ rv @ c # x # [])"
    using a b10 by (intro accepts_oneI) simp_all
  have b8: "accepts (Atom Digit Plus # Atom Space One # (lits ''Volume'' @ (Atom Space One # Atom Digit One # (lits '','' @ (Atom Space Opt # (lits ''Rev'' @ (Atom Space One # Atom Word One # []))))))) (ds @ a # v @ b # d # '','' @ s5 @ rv @ c # x # [])"
    using ds b9 by (intro accepts_plusI) (simp_all add: list_all_digit)
  have b7: "accepts (Atom Space Opt # Atom Digit Plus # Atom Space One # (lits ''Volume'' @ (Atom Space One # Atom Digit One # (lits '','' @ (Atom Space Opt # (lits ''Rev'' @ (Atom Space One # Atom Word One # []))))))) (s4 @ ds @ a # v @ b # d # '','' @ s5 @ rv @ c # x # [])"
    using s4 b8 by (intro accepts_optI) (simp_all add: space01_def list_all_space)
  have b6: "accepts (lits ''-'' @ (Atom Space Opt # Atom Digit Plus # Atom Space One # (lits ''Volume'' @ (Atom Space One # Atom Digit One # (lits '','' @ (Atom Space Opt # (lits ''Rev'' @ (Atom Space One # Atom Word One # [])))))))) (''-'' @ s4 @ ds @ a # v @ b # d # '','' @ s5 @ rv @ c # x # [])"
    using b7 by (intro accepts_litsI) simp_all
  have b5: "accepts (Atom Space Opt # (lits ''-'' @ (Atom Space Opt # Atom Digit Plus # Atom Space One # (lits ''Volume'' @ (Atom Space One # Atom Digit One # (lits '','' @ (Atom Space Opt # (lits ''Rev'' @ (Atom Space One # Atom Word One # []))))))))) (s3 @ ''-'' @ s4 @ ds @ a # v @ b # d # '','' @ s5 @ rv @ c # x # [])"
    using s3 b6 by (intro accepts_optI) (simp_all add: space01_def list_all_space)
  have m4: "map lower t = map lower ''STD''" using t by (simp only: std_literals)
  have b4: "accepts (lits ''STD'' @ (Atom Space Opt # (lits ''-'' @ (Atom Space Opt # Atom Digit Plus # Atom Space One # (lits ''Volume'' @ (Atom Space One # Atom Digit One # (lits '','' @ (Atom Space Opt # (lits ''Rev'' @ (Atom Space One # Atom Word One # [])))))))))) (t @ s3 @ ''-'' @ s4 @ ds @ a # v @ b # d # '','' @ s5 @ rv @ c # x # [])"
    using m4 b5 by (intro accepts_litsI)
  have b3: "accepts (Atom Space Opt # (lits ''STD'' @ (Atom Space Opt # (lits ''-'' @ (Atom Space Opt # Atom Digit Plus # Atom Space One # (lits ''Volume'' @ (Atom Space One # Atom Digit One # (lits '','' @ (Atom Space Opt # (lits ''Rev'' @ (Atom Space One # Atom Word One # []))))))))))) (s2 @ t @ s3 @ ''-'' @ s4 @ ds @ a # v @ b # d # '','' @ s5 @ rv @ c # x # [])"
    using s2 b4 by (intro accepts_optI) (simp_all add: space01_def list_all_space)
  have b2: "accepts (lits ''-'' @ (Atom Space Opt # (lits ''STD'' @ (Atom Space Opt # (lits ''-'' @ (Atom Space Opt # Atom Digit Plus # Atom Space One # (lits ''Volume'' @ (Atom Space One # Atom Digit One # (lits '','' @ (Atom Space Opt # (lits ''Rev'' @ (Atom Space One # Atom Word One # [])))))))))))) (''-'' @ s2 @ t @ s3 @ ''-'' @ s4 @ ds @ a # v @ b # d # '','' @ s5 @ rv @ c # x # [])"
    using b3 by (intro accepts_litsI) simp_all
  have b1: "accepts (Atom Space Opt # (lits ''-'' @ (Atom Space Opt # (lits ''STD'' @ (Atom Space Opt # (lits ''-'' @ (Atom Space Opt # Atom Digit Plus # Atom Space One # (lits ''Volume'' @ (Atom Space One # Atom Digit One # (lits '','' @ (Atom Space Opt # (lits ''Rev'' @ (Atom Space One # Atom Word One # []))))))))))))) (s1 @ ''-'' @ s2 @ t @ s3 @ ''-'' @ s4 @ ds @ a # v @ b # d # '','' @ s5 @ rv @ c # x # [])"
    using s1 b2 by (intro accepts_optI) (simp_all add: space01_def list_all_space)
  have m0: "map lower n = map lower ''NASA''" using n by (simp only: std_literals)
  have b0: "accepts (lits ''NASA'' @ (Atom Space Opt # (lits ''-'' @ (Atom Space Opt # (lits ''STD'' @ (Atom Space Opt # (lits ''-'' @ (Atom Space Opt # Atom Digit Plus # Atom Space One # (lits ''Volume'' @ (Atom Space One # Atom Digit One # (lits '','' @ (Atom Space Opt # (lits ''Rev'' @ (Atom Space One # Atom Word One # [])))))))))))))) (n @ s1 @ ''-'' @ s2 @ t @ s3 @ ''-'' @ s4 @ ds @ a # v @ b # d # '','' @ s5 @ rv @ c # x # [])"
    using m0 b1 by (intro accepts_litsI)
  have "w = n @ s1 @ ''-'' @ s2 @ t @ s3 @ ''-'' @ s4 @ ds @ a # v @ b # d # '','' @ s5 @ rv @ c # x # []" using w by simp
  with b0 show ?thesis by (simp only: std_body_nf)
qed

lemma accepts_std_body_iff: "accepts std_body w \<longleftrightarrow> std_citation w"
  using accepts_std_body_D accepts_std_body_I by blast

lemma contains_std_rx:
  "contains std_rx s \<longleftrightarrow> (\<exists>pre w suf. s = pre @ w @ suf \<and> std_citation w)"
  by (simp add: contains_def accepts_std_rx_body accepts_std_body_iff)

lemma re_finditer_std_rx:
  assumes "m \<in> set (re_finditer std_rx s)"
  shows "m_group1 m = m_group0 m" and "std_citation (m_group0 m)"
    and "\<exists>pre. s = pre @ m_group0 m @ m_rest m"
proof -
  from assms show "m_group1 m = m_group0 m"
    unfolding std_rx_body by (rule re_finditer_whole_group [OF std_body_no_groups])
  from re_finditer_accepts [OF assms]
  show "std_citation (m_group0 m)" and "\<exists>pre. s = pre @ m_group0 m @ m_rest m"
    by (simp_all add: accepts_std_rx_body accepts_std_body_iff)
qed

text \<open>
  C2, as stated, fails: a citation with spaces in place of the hyphens is not matched.
\<close>

theorem citation_without_hyphens_not_matched:
  "technical_requirements_docs
     (parse_technical_requirements (PdfReport_init ''u'') ''NASA STD 3001 Volume 2, Rev A'') = []"
  by code_simp

text \<open>
  C2, amended.  The standards scan appends to the list, in the order of the text, the
  successive matches of the standards pattern, each with every \<open>" -"\<close> replaced by
  \<open>"-"\<close>.  Every match is a part of the text that is a citation with both of its hyphens,
  and there is a match exactly when some part of the text is such a citation.  The
  white space of a citation is any character of \<open>\s\<close> and its revision any character of
  \<open>\w\<close>: the citations with a no-break space and with an accented revision letter are
  matched.
\<close>

theorem standards_scan:
  "technical_requirements_docs (parse_technical_requirements r page_text) =
     technical_requirements_docs r
       @ map (\<lambda>m. str_replace '' -'' ''-'' (m_group0 m)) (re_finditer std_rx page_text)
   \<and> (\<forall>m \<in> set (re_finditer std_rx page_text).
        std_citation (m_group0 m) \<and> (\<exists>pre. page_text = pre @ m_group0 m @ m_rest m))
   \<and> ((\<exists>pre w suf. page_text = pre @ w @ suf \<and> std_citation w)
        \<longleftrightarrow> re_finditer std_rx page_text \<noteq> [])"
proof (intro conjI ballI)
  have "map (\<lambda>m. str_replace '' -'' ''-'' (m_group1 m)) (re_finditer std_rx page_text) =
      map (\<lambda>m. str_replace '' -'' ''-'' (m_group0 m)) (re_finditer std_rx page_text)"
    by (rule map_cong) (simp_all add: re_finditer_std_rx(1))
  then show "technical_requirements_docs (parse_technical_requirements r page_text) =
     technical_requirements_docs r
       @ map (\<lambda>m. str_replace '' -'' ''-'' (m_group0 m)) (re_finditer std_rx page_text)"
    by simp
next
  fix m assume "m \<in> set (re_finditer std_rx page_text)"
  from re_finditer_std_rx(2,3) [OF this]
  show "std_citation (m_group0 m)" and "\<exists>pre. page_text = pre @ m_group0 m @ m_rest m" .
next
  show "(\<exists>pre w suf. page_text = pre @ w @ suf \<and> std_citation w)
        \<longleftrightarrow> re_finditer std_rx page_text \<noteq> []"
    by (simp add: re_finditer_Nil_iff re_search_None_iff contains_std_rx)
qed

theorem standards_scan_witness:
  "technical_requirements_docs
     (parse_technical_requirements (PdfReport_init ''u'') ''per NASA -STD - 3001 Volume 2, Rev A and'')
     = [''NASA-STD- 3001 Volume 2, Rev A'']
   \<and> std_citation ''NASA -STD - 3001 Volume 2, Rev A''
   \<and> re_finditer std_rx ''per NASA -STD - 3001 Volume 2, Rev A and'' \<noteq> []
   \<and> technical_requirements_docs
       (parse_technical_requirements (PdfReport_init ''u'')
          citation_nbsp)
       = [citation_nbsp]
   \<and> std_citation citation_nbsp
   \<and> technical_requirements_docs
       (parse_technical_requirements (PdfReport_init ''u'')
          citation_e_acute)
       = [citation_e_acute]
   \<and> std_citation citation_e_acute"
proof -
  have found: "re_finditer std_rx ''per NASA -STD - 3001 Volume 2, Rev A and'' =
      [\<lparr> m_group0 = ''NASA -STD - 3001 Volume 2, Rev A'',
         m_group1 = ''NASA -STD - 3001 Volume 2, Rev A'', m_rest = '' and'' \<rparr>]"
    by code_simp
  have norm: "str_replace '' -'' ''-'' ''NASA -STD - 3001 Volume 2, Rev A'' = ''NASA-STD- 3001 Volume 2, Rev A''"
    by code_simp
  note inst = standards_scan [of "PdfReport_init ''u''" "''per NASA -STD - 3001 Volume 2, Rev A and''"]
  from inst have a: "technical_requirements_docs
     (parse_technical_requirements (PdfReport_init ''u'') ''per NASA -STD - 3001 Volume 2, Rev A and'')
     = [''NASA-STD- 3001 Volume 2, Rev A'']"
    by (simp add: found norm PdfReport_init_def)
  from inst have b: "std_citation ''NASA -STD - 3001 Volume 2, Rev A''"
    by (simp add: found)
  from found have c: "re_finditer std_rx ''per NASA -STD - 3001 Volume 2, Rev A and'' \<noteq> []"
    by simp
  have found_nbsp: "re_finditer std_rx citation_nbsp =
      [\<lparr> m_group0 = citation_nbsp,
         m_group1 = citation_nbsp, m_rest = [] \<rparr>]"
    by code_simp
  have norm_nbsp: "str_replace '' -'' ''-'' citation_nbsp =
      citation_nbsp"
    by code_simp
  note inst_nbsp = standards_scan [of "PdfReport_init ''u''" citation_nbsp]
  from inst_nbsp have d: "technical_requirements_docs
       (parse_technical_requirements (PdfReport_init ''u'')
          citation_nbsp)
       = [citation_nbsp]"
    by (simp add: found_nbsp norm_nbsp PdfReport_init_def)
  from inst_nbsp have e: "std_citation citation_nbsp"
    by (simp add: found_nbsp)
  have found_e: "re_finditer std_rx citation_e_acute =
      [\<lparr> m_group0 = citation_e_acute,
         m_group1 = citation_e_acute, m_rest = [] \<rparr>]"
    by code_simp
  have norm_e: "str_replace '' -'' ''-'' citation_e_acute =
      citation_e_acute"
    by code_simp
  note inst_e = standards_scan [of "PdfReport_init ''u''" citation_e_acute]
  from inst_e have f: "technical_requirements_docs
       (parse_technical_requirements (PdfReport_init ''u'')
          citation_e_acute)
       = [citation_e_acute]"
    by (simp add: found_e norm_e PdfReport_init_def)
  from inst_e have g: "std_citation citation_e_acute"
    by (simp add: found_e)
  from a b c d e f g show ?thesis by (intro conjI)
qed

end
